theory Spec2Isabelle
  imports Complex_Main "HOL-Library.Multiset"
begin

section \<open>Data model\<close>

text \<open>
  A point is a pair of numbers \<open>[x, y]\<close>; a polygon is the array of its vertices. The
  edge keys of the source are the strings \<open>`${a[0]},${a[1]}-${b[0]},${b[1]}`\<close>; two
  keys are equal exactly when the four numbers are, so a key is the pair of points itself.

  Tiles are JavaScript arrays that the code compares by reference (\<open>p !== t\<close>) and never
  mutates. A tile is therefore a reference (a natural number) and the arena \<open>geom\<close>
  gives the polygon stored at each reference.

  A thrown \<open>TypeError\<close> is the result \<open>None\<close>; a function that can throw returns an
  option.
\<close>

type_synonym point = "real \<times> real"
type_synonym polygon = "point list"
type_synonym edge = "point \<times> point"
type_synonym tile = nat
type_synonym arena = "tile \<Rightarrow> polygon"
type_synonym adjacency = "nat list list"

text \<open>The loop \<open>for i: a = poly[i]; b = poly[(i + 1) % poly.length]\<close>.\<close>

definition edgesOf :: "polygon \<Rightarrow> edge list" where
  "edgesOf poly = map (\<lambda>i. (poly ! i, poly ! ((i + 1) mod length poly))) [0..<length poly]"

text \<open>\<open>Set.prototype.add\<close> on a set kept in insertion order.\<close>

definition setAdd :: "'a list \<Rightarrow> 'a \<Rightarrow> 'a list" where
  "setAdd xs x = (if x \<in> set xs then xs else xs @ [x])"

text \<open>
  \<open>adj.get(i).add(j)\<close>. Every call site passes loop indices of the tile list, for which
  the key \<open>i\<close> was set before (lemma \<open>sccAdjacency_wf\<close>).
\<close>

definition addNeighbour :: "adjacency \<Rightarrow> nat \<Rightarrow> nat \<Rightarrow> adjacency" where
  "addNeighbour adj i j = adj[i := setAdd (adj ! i) j]"

section \<open>Connectivity: \<open>splitConnectedComponents\<close>\<close>

text \<open>The body of the edge loop of \<open>splitConnectedComponents\<close> and \<open>buildAdjacency\<close>.\<close>

fun linkEdge :: "nat \<Rightarrow> (edge \<rightharpoonup> nat) \<times> adjacency \<Rightarrow> edge \<Rightarrow> (edge \<rightharpoonup> nat) \<times> adjacency" where
  "linkEdge idx (edgeMap, adj) (a, b) =
     (case edgeMap (b, a) of
        Some otherIdx \<Rightarrow> (edgeMap, addNeighbour (addNeighbour adj idx otherIdx) otherIdx idx)
      | None \<Rightarrow> (edgeMap((a, b) \<mapsto> idx), adj))"

definition linkTile :: "(edge \<rightharpoonup> nat) \<times> adjacency \<Rightarrow> nat \<times> polygon \<Rightarrow> (edge \<rightharpoonup> nat) \<times> adjacency" where
  "linkTile st ip = foldl (linkEdge (fst ip)) st (edgesOf (snd ip))"

definition sccAdjacency :: "polygon list \<Rightarrow> adjacency" where
  "sccAdjacency polys =
     snd (foldl linkTile (Map.empty, replicate (length polys) []) (enumerate 0 polys))"

text \<open>
  The array \<open>visited\<close>: a read beyond the end gives \<open>undefined\<close>, which is falsy; a write
  beyond the end extends the array, the holes reading as \<open>undefined\<close>.
\<close>

definition isVisited :: "bool list \<Rightarrow> nat \<Rightarrow> bool" where
  "isVisited visited v = (v < length visited \<and> visited ! v)"

definition markVisited :: "bool list \<Rightarrow> nat \<Rightarrow> bool list" where
  "markVisited visited v =
     (if v < length visited then visited[v := True]
      else visited @ replicate (v - length visited) False @ [True])"

text \<open>\<open>adj.get(u).forEach((v) => { if (!visited[v]) { visited[v] = true; queue.push(v); } })\<close>\<close>

fun visitNeighbours :: "bool list \<times> nat list \<Rightarrow> nat list \<Rightarrow> bool list \<times> nat list" where
  "visitNeighbours (visited, queue) [] = (visited, queue)"
| "visitNeighbours (visited, queue) (v # vs) =
     (if \<not> isVisited visited v
      then visitNeighbours (markVisited visited v, queue @ [v]) vs
      else visitNeighbours (visited, queue) vs)"

definition nodesOf :: "adjacency \<Rightarrow> nat set" where
  "nodesOf adj = {..<length adj} \<union> \<Union> (set ` set adj)"

definition unvisitedCount :: "adjacency \<Rightarrow> bool list \<Rightarrow> nat" where
  "unvisitedCount adj visited = card {v \<in> nodesOf adj. \<not> isVisited visited v}"

lemma isVisited_markVisited [simp]:
  "isVisited (markVisited visited v) w \<longleftrightarrow> w = v \<or> isVisited visited w"
  by (auto simp: isVisited_def markVisited_def nth_list_update nth_append)

lemma finite_nodesOf [simp]: "finite (nodesOf adj)"
  by (simp add: nodesOf_def)

lemma unvisitedCount_mark:
  assumes "v \<in> nodesOf adj" "\<not> isVisited visited v"
  shows "Suc (unvisitedCount adj (markVisited visited v)) = unvisitedCount adj visited"
proof -
  have eq: "{w \<in> nodesOf adj. \<not> isVisited visited w}
      = insert v {w \<in> nodesOf adj. \<not> isVisited (markVisited visited v) w}"
    using assms by auto
  have "v \<notin> {w \<in> nodesOf adj. \<not> isVisited (markVisited visited v) w}"
    by simp
  then show ?thesis
    unfolding unvisitedCount_def eq by (subst card_insert_disjoint) auto
qed

lemma visitNeighbours_measure:
  assumes "set vs \<subseteq> nodesOf adj" "visitNeighbours (visited, queue) vs = (visited', queue')"
  shows "unvisitedCount adj visited' + length queue' = unvisitedCount adj visited + length queue"
  using assms
proof (induction vs arbitrary: visited queue)
  case Nil
  then show ?case by simp
next
  case (Cons v vs)
  show ?case
  proof (cases "isVisited visited v")
    case True
    with Cons show ?thesis by simp
  next
    case False
    with Cons.prems have "visitNeighbours (markVisited visited v, queue @ [v]) vs = (visited', queue')"
      by simp
    with Cons.IH Cons.prems(1)
    have "unvisitedCount adj visited' + length queue'
        = unvisitedCount adj (markVisited visited v) + length (queue @ [v])"
      by simp
    moreover have "Suc (unvisitedCount adj (markVisited visited v)) = unvisitedCount adj visited"
      using unvisitedCount_mark [of v adj visited] Cons.prems(1) False by simp
    ultimately show ?thesis by simp
  qed
qed

lemma bfs_step_decreases:
  assumes "u < length adj" "(visited', queue') = visitNeighbours (visited, queue) (adj ! u)"
  shows "unvisitedCount adj visited' + length queue' < Suc (unvisitedCount adj visited + length queue)"
proof -
  have "set (adj ! u) \<subseteq> nodesOf adj"
    using assms(1) by (auto simp: nodesOf_def)
  then have "unvisitedCount adj visited' + length queue' = unvisitedCount adj visited + length queue"
    using assms(2) by (intro visitNeighbours_measure [of "adj ! u"]) simp_all
  then show ?thesis by simp
qed

text \<open>
  The inner loop \<open>while (queue.length) { const u = queue.shift(); comp.push(polys[u]); ... }\<close>.
  \<open>get u\<close> is \<open>polys[u]\<close> and \<open>acc\<close> is the array \<open>comp\<close>. \<open>adj.get(u)\<close> is
  \<open>undefined\<close> for a key that was never set, and \<open>undefined.forEach\<close> throws.
\<close>

function bfs :: "(nat \<Rightarrow> 'a) \<Rightarrow> adjacency \<Rightarrow> bool list \<Rightarrow> nat list \<Rightarrow> 'a list
    \<Rightarrow> (bool list \<times> 'a list) option" where
  "bfs get adj visited [] acc = Some (visited, acc)"
| "bfs get adj visited (u # queue) acc =
     (if u < length adj then
        (case visitNeighbours (visited, queue) (adj ! u) of
           (visited', queue') \<Rightarrow> bfs get adj visited' queue' (acc @ [get u]))
      else None)"
  by pat_completeness auto
termination
  by (relation "measure (\<lambda>(get, adj, visited, queue, acc). unvisitedCount adj visited + length queue)")
     (auto dest: bfs_step_decreases)

declare bfs.simps [simp del]

text \<open>The outer loop \<open>for (let i = 0; i < polys.length; i++)\<close>, over the indices still to come.\<close>

fun componentsFrom :: "(nat \<Rightarrow> 'a) \<Rightarrow> adjacency \<Rightarrow> nat list \<Rightarrow> bool list \<Rightarrow> 'a list list
    \<Rightarrow> 'a list list option" where
  "componentsFrom get adj [] visited components = Some components"
| "componentsFrom get adj (i # is) visited components =
     (if isVisited visited i then componentsFrom get adj is visited components
      else (case bfs get adj (markVisited visited i) [i] [] of
              None \<Rightarrow> None
            | Some (visited', cmp) \<Rightarrow> componentsFrom get adj is visited' (components @ [cmp])))"

text \<open>
  \<open>splitConnectedComponents(polys)\<close>. The argument \<open>None\<close> is a \<open>null\<close> (or \<open>undefined\<close>)
  tile list; the result \<open>None\<close> is a thrown \<open>TypeError\<close>.
\<close>

definition splitConnectedComponents :: "arena \<Rightarrow> tile list option \<Rightarrow> tile list list option" where
  "splitConnectedComponents geom polysOpt =
     (case polysOpt of
        None \<Rightarrow> Some []
      | Some polys \<Rightarrow>
          if length polys = 0 then Some []
          else componentsFrom (\<lambda>u. polys ! u) (sccAdjacency (map geom polys))
                 [0..<length polys] (replicate (length polys) False) [])"


section \<open>Border extraction: \<open>drawBorders\<close>\<close>

text \<open>
  A JavaScript \<open>Map\<close> iterates in insertion order; \<open>set\<close> on a key that is present
  replaces the value in place, \<open>delete\<close> removes the entry.
\<close>

definition omHas :: "('k \<times> 'v) list \<Rightarrow> 'k \<Rightarrow> bool" where
  "omHas m k = (k \<in> fst ` set m)"

definition omSet :: "('k \<times> 'v) list \<Rightarrow> 'k \<Rightarrow> 'v \<Rightarrow> ('k \<times> 'v) list" where
  "omSet m k v =
     (if omHas m k then map (\<lambda>(k', v'). if k' = k then (k', v) else (k', v')) m
      else m @ [(k, v)])"

definition omDelete :: "('k \<times> 'v) list \<Rightarrow> 'k \<Rightarrow> ('k \<times> 'v) list" where
  "omDelete m k = filter (\<lambda>(k', v'). k' \<noteq> k) m"

text \<open>The body of the edge loop: cancel against the recorded reverse, or record.\<close>

fun cancelEdge :: "(edge \<times> edge) list \<Rightarrow> edge \<Rightarrow> (edge \<times> edge) list" where
  "cancelEdge edgeMap (a, b) =
     (if omHas edgeMap (b, a) then omDelete edgeMap (b, a)
      else omSet edgeMap (a, b) (a, b))"

text \<open>
  \<open>drawBorders(polys, color, lineWidth)\<close>: the value is the list of segments stroked on the
  canvas, one \<open>moveTo(a); lineTo(b)\<close> for each entry of \<open>edgeMap\<close>, in the map's order.
\<close>

definition drawBorders :: "arena \<Rightarrow> tile list \<Rightarrow> edge list" where
  "drawBorders geom polys =
     map snd (foldl (\<lambda>edgeMap poly. foldl cancelEdge edgeMap (edgesOf poly)) [] (map geom polys))"

section \<open>Land selection: \<open>IsTargetPokygon\<close>\<close>

text \<open>
  The functions of the libraries d3, lodash and poisson-disk-sampling that the engine calls.
  A centroid is \<open>None\<close> when d3 divides by a zero area and a coordinate is \<open>NaN\<close> or
  infinite. \<open>polygonHull\<close> is \<open>None\<close> for d3's \<open>null\<close>. \<open>random n lower upper\<close> is the
  value of the \<open>n\<close>-th call \<open>_.random(lower, upper, true)\<close> of one invocation.
\<close>

record lib =
  polygonCentroid :: "polygon \<Rightarrow> point option"
  polygonHull :: "point list \<Rightarrow> point list option"
  polygonContains :: "point list \<Rightarrow> point \<Rightarrow> bool"
  poissonFill :: "real \<times> real \<Rightarrow> real \<Rightarrow> real \<Rightarrow> point list"
  random :: "nat \<Rightarrow> real \<Rightarrow> real \<Rightarrow> real"

definition ISLAND_FACTOR :: real where
  "ISLAND_FACTOR = 1"

text \<open>\<open>Math.atan2(y, x)\<close> on real numbers.\<close>

definition atan2 :: "real \<Rightarrow> real \<Rightarrow> real" where
  "atan2 y x =
     (if 0 < x then arctan (y / x)
      else if x < 0 then (if 0 \<le> y then arctan (y / x) + pi else arctan (y / x) - pi)
      else if 0 < y then pi / 2
      else if y < 0 then - (pi / 2)
      else 0)"

text \<open>The local variables \<open>angle\<close>, \<open>length\<close>, \<open>r1\<close> and \<open>r2\<close> of \<open>IsTargetPokygon\<close>.\<close>

definition islandAngle :: "point \<Rightarrow> point \<Rightarrow> real" where
  "islandAngle c centerPoint = atan2 (snd c - fst centerPoint) (fst c - snd centerPoint)"

definition islandLength :: "point \<Rightarrow> point \<Rightarrow> real" where
  "islandLength c centerPoint =
     0.5 * (max \<bar>fst c - fst centerPoint\<bar> \<bar>snd c - snd centerPoint\<bar>
            + sqrt ((fst c - fst centerPoint)\<^sup>2 + (snd c - snd centerPoint)\<^sup>2))"

definition islandR1 :: "real \<Rightarrow> real \<Rightarrow> real \<Rightarrow> real \<Rightarrow> real \<Rightarrow> real" where
  "islandR1 pixelScale angle startAngle bumps scale =
     (0.5 + 0.4 * sin (startAngle + bumps * angle + cos ((bumps + 3) * angle))) * pixelScale * scale"

definition islandR2 :: "real \<Rightarrow> real \<Rightarrow> real \<Rightarrow> real \<Rightarrow> real \<Rightarrow> real" where
  "islandR2 pixelScale angle startAngle bumps scale =
     (0.7 - 0.2 * sin (startAngle + bumps * angle - sin ((bumps + 2) * angle))) * pixelScale * scale"

text \<open>The return expression, at a finite centroid \<open>c\<close>.\<close>

definition isLandAt :: "real \<Rightarrow> point \<Rightarrow> point \<Rightarrow> real \<Rightarrow> real \<Rightarrow> real \<Rightarrow> bool" where
  "isLandAt pixelScale c centerPoint startAngle bumps scale =
     (let angle = islandAngle c centerPoint;
          len = islandLength c centerPoint;
          r1 = islandR1 pixelScale angle startAngle bumps scale;
          r2 = islandR2 pixelScale angle startAngle bumps scale
      in len < r1 \<or> (len > r1 * ISLAND_FACTOR \<and> len < r2))"

text \<open>
  \<open>IsTargetPokygon(polygon, centerPoint, startAngle, bumps, scale)\<close>, with \<open>this.pixelScale\<close>
  as an argument. Every comparison with \<open>NaN\<close> is false, and an infinite \<open>length\<close> is below
  no radius, so a centroid that is not finite gives \<open>false\<close>.
\<close>

definition IsTargetPokygon :: "lib \<Rightarrow> real \<Rightarrow> polygon \<Rightarrow> point \<Rightarrow> real \<Rightarrow> real \<Rightarrow> real \<Rightarrow> bool" where
  "IsTargetPokygon L pixelScale polygon centerPoint startAngle bumps scale =
     (case polygonCentroid L polygon of
        None \<Rightarrow> False
      | Some c \<Rightarrow> isLandAt pixelScale c centerPoint startAngle bumps scale)"

text \<open>The single test that the specification gives as the equivalent of the return expression.\<close>

definition isLandSingleTest :: "real \<Rightarrow> point \<Rightarrow> point \<Rightarrow> real \<Rightarrow> real \<Rightarrow> real \<Rightarrow> bool" where
  "isLandSingleTest pixelScale c centerPoint startAngle bumps scale =
     (islandLength c centerPoint
        < islandR2 pixelScale (islandAngle c centerPoint) startAngle bumps scale)"
section \<open>Seeding: \<open>generateCentersInPolygons\<close>\<close>

text \<open>
  The fallback \<open>_.range(num).map(() => ({ x: mapCenter.x + _.random(-80, 80, true),
  y: mapCenter.y + _.random(-80, 80, true) }))\<close>.
\<close>

definition jitterCenters :: "lib \<Rightarrow> point \<Rightarrow> nat \<Rightarrow> point list" where
  "jitterCenters L mapCenter num =
     map (\<lambda>i. (fst mapCenter + random L (2 * i) (- 80) 80,
               snd mapCenter + random L (2 * i + 1) (- 80) 80)) [0..<num]"

text \<open>The loop \<open>for (let i = 0; i < raw.length && centers.length < num; i++)\<close>.\<close>

fun acceptRaw :: "lib \<Rightarrow> point list \<Rightarrow> real \<Rightarrow> real \<Rightarrow> nat \<Rightarrow> point list \<Rightarrow> point list
    \<Rightarrow> point list" where
  "acceptRaw L hullPts minX minY num [] centers = centers"
| "acceptRaw L hullPts minX minY num (r # raw) centers =
     (if length centers < num then
        (if polygonContains L hullPts (fst r + minX, snd r + minY)
         then acceptRaw L hullPts minX minY num raw (centers @ [(fst r + minX, snd r + minY)])
         else acceptRaw L hullPts minX minY num raw centers)
      else centers)"

text \<open>
  The draw of one rejection attempt; \<open>guard\<close> counts the attempts made before it, and each
  attempt calls \<open>_.random\<close> twice.
\<close>

definition rejectionDraw :: "lib \<Rightarrow> real \<times> real \<Rightarrow> real \<times> real \<Rightarrow> nat \<Rightarrow> point" where
  "rejectionDraw L xs ys guard =
     (random L (2 * guard) (fst xs) (snd xs), random L (2 * guard + 1) (fst ys) (snd ys))"

text \<open>The loop \<open>while (centers.length < num && guard < 5000)\<close>.\<close>

function topUp :: "lib \<Rightarrow> point list \<Rightarrow> real \<times> real \<Rightarrow> real \<times> real \<Rightarrow> nat \<Rightarrow> nat \<Rightarrow> point list
    \<Rightarrow> point list" where
  "topUp L hullPts xs ys num guard centers =
     (if length centers < num \<and> guard < 5000 then
        topUp L hullPts xs ys num (guard + 1)
          (if polygonContains L hullPts (rejectionDraw L xs ys guard)
           then centers @ [rejectionDraw L xs ys guard] else centers)
      else centers)"
  by pat_completeness auto
termination
  by (relation "measure (\<lambda>(L, hullPts, xs, ys, num, guard, centers). 5000 - guard)") auto

declare topUp.simps [simp del]

text \<open>
  \<open>generateCentersInPolygons(num, polygons)\<close>, with \<open>this.mapCenter\<close> as an argument. The
  Poisson sampler is given the shape and the two distances that the source computes.
\<close>

definition generateCentersInPolygons :: "lib \<Rightarrow> point \<Rightarrow> nat \<Rightarrow> polygon list \<Rightarrow> point list" where
  "generateCentersInPolygons L mapCenter num polygons =
     (case polygonHull L (concat polygons) of
        None \<Rightarrow> jitterCenters L mapCenter num
      | Some hullPts \<Rightarrow>
          if length hullPts < 3 then jitterCenters L mapCenter num
          else
            (let minX = Min (set (map fst hullPts)); maxX = Max (set (map fst hullPts));
                 minY = Min (set (map snd hullPts)); maxY = Max (set (map snd hullPts));
                 raw = poissonFill L (maxX - minX, maxY - minY)
                         (max 30 ((maxX - minX + (maxY - minY)) / 40))
                         (max 60 ((maxX - minX + (maxY - minY)) / 25));
                 centers = acceptRaw L hullPts minX minY num raw []
             in topUp L hullPts (minX, maxX) (minY, maxY) num 0 centers))"

section \<open>Region growing: \<open>buildAdjacency\<close> and \<open>growConnectedGroups\<close>\<close>

text \<open>\<open>buildAdjacency(polys)\<close>: the key \<open>idx\<close> is set when the loop reaches the tile.\<close>

definition buildTile :: "(edge \<rightharpoonup> nat) \<times> adjacency \<Rightarrow> nat \<times> polygon \<Rightarrow> (edge \<rightharpoonup> nat) \<times> adjacency" where
  "buildTile st ip = foldl (linkEdge (fst ip)) (fst st, snd st @ [[]]) (edgesOf (snd ip))"

definition buildAdjacency :: "polygon list \<Rightarrow> adjacency" where
  "buildAdjacency polys = snd (foldl buildTile (Map.empty, []) (enumerate 0 polys))"

text \<open>
  Squared distances. A centroid or group center that is not finite is \<open>None\<close>, and so is
  the distance computed from it (\<open>NaN\<close> or \<open>Infinity\<close>). \<open>closer d bd\<close> is the test \<open>d < bd\<close>,
  where \<open>bd = None\<close> is the initial \<open>Infinity\<close>.
\<close>

definition sqDist :: "point option \<Rightarrow> point option \<Rightarrow> real option" where
  "sqDist c p =
     (case c of
        None \<Rightarrow> None
      | Some (cx, cy) \<Rightarrow>
          (case p of
             None \<Rightarrow> None
           | Some (px, py) \<Rightarrow> Some ((cx - px) * (cx - px) + (cy - py) * (cy - py))))"

definition closer :: "real option \<Rightarrow> real option \<Rightarrow> bool" where
  "closer d bd =
     (case d of None \<Rightarrow> False | Some x \<Rightarrow> (case bd of None \<Rightarrow> True | Some y \<Rightarrow> x < y))"

text \<open>
  The loop \<open>for (let j = 0; j < k; j++) { const [px, py] = centerPos[j]; ... }\<close> with
  \<open>best = 0, bd = Infinity\<close>; destructuring \<open>undefined\<close> throws.
\<close>

fun nearestFrom :: "point option \<Rightarrow> point option list \<Rightarrow> nat list \<Rightarrow> nat \<times> real option \<Rightarrow> nat option" where
  "nearestFrom c positions [] (best, bd) = Some best"
| "nearestFrom c positions (j # js) (best, bd) =
     (if j < length positions then
        (if closer (sqDist c (positions ! j)) bd
         then nearestFrom c positions js (j, sqDist c (positions ! j))
         else nearestFrom c positions js (best, bd))
      else None)"

definition nearestIndex :: "point option \<Rightarrow> point option list \<Rightarrow> nat \<Rightarrow> nat option" where
  "nearestIndex c positions k = nearestFrom c positions [0..<k] (0, None)"

text \<open>The loop over the tiles that ends in \<open>queues[best].push(i)\<close>.\<close>

fun fillQueues :: "(nat \<Rightarrow> point option) \<Rightarrow> point option list \<Rightarrow> nat \<Rightarrow> nat list \<Rightarrow> nat list list
    \<Rightarrow> nat list list option" where
  "fillQueues cen positions k [] queues = Some queues"
| "fillQueues cen positions k (i # is) queues =
     (case nearestIndex (cen i) positions k of
        None \<Rightarrow> None
      | Some best \<Rightarrow>
          if best < length queues
          then fillQueues cen positions k is (queues[best := queues ! best @ [i]])
          else None)"

text \<open>\<open>assign[i] === -1\<close>; beyond the end the read is \<open>undefined\<close>.\<close>

definition isUnassigned :: "int list \<Rightarrow> nat \<Rightarrow> bool" where
  "isUnassigned assign i = (i < length assign \<and> assign ! i = - 1)"

text \<open>\<open>idxAdj.get(idx).forEach((nb) => { if (assign[nb] === -1) fronts[g].add(nb); })\<close>\<close>

definition pushNeighbours :: "int list \<Rightarrow> nat list \<Rightarrow> nat list \<Rightarrow> nat list" where
  "pushNeighbours assign front nbs =
     foldl (\<lambda>f nb. if isUnassigned assign nb then setAdd f nb else f) front nbs"

text \<open>
  The body of \<open>for (const idx of frontier)\<close>, on the state \<open>(assign, fronts[g], progress)\<close>.
\<close>

fun claimTile :: "adjacency \<Rightarrow> nat \<Rightarrow> int list \<times> nat list \<times> bool \<Rightarrow> nat
    \<Rightarrow> (int list \<times> nat list \<times> bool) option" where
  "claimTile idxAdj g (assign, front, progress) idx =
     (if idx < length idxAdj then
        (if isUnassigned assign idx
         then Some (assign[idx := int g], pushNeighbours (assign[idx := int g]) front (idxAdj ! idx), True)
         else Some (assign, pushNeighbours assign front (idxAdj ! idx), progress))
      else None)"

fun claimAll :: "adjacency \<Rightarrow> nat \<Rightarrow> int list \<times> nat list \<times> bool \<Rightarrow> nat list
    \<Rightarrow> (int list \<times> nat list \<times> bool) option" where
  "claimAll idxAdj g st [] = Some st"
| "claimAll idxAdj g st (idx # frontier) =
     (case claimTile idxAdj g st idx of
        None \<Rightarrow> None
      | Some st' \<Rightarrow> claimAll idxAdj g st' frontier)"

text \<open>
  The body of \<open>for (let g = 0; g < k; g++)\<close>: the frontier is snapshot, \<open>fronts[g]\<close> cleared
  and refilled.
\<close>

fun growGroup :: "adjacency \<Rightarrow> int list \<times> nat list list \<times> bool \<Rightarrow> nat
    \<Rightarrow> (int list \<times> nat list list \<times> bool) option" where
  "growGroup idxAdj (assign, fronts, progress) g =
     (case claimAll idxAdj g (assign, [], progress) (fronts ! g) of
        None \<Rightarrow> None
      | Some (assign', front', progress') \<Rightarrow> Some (assign', fronts[g := front'], progress'))"

fun growRound :: "adjacency \<Rightarrow> int list \<times> nat list list \<times> bool \<Rightarrow> nat list
    \<Rightarrow> (int list \<times> nat list list \<times> bool) option" where
  "growRound idxAdj st [] = Some st"
| "growRound idxAdj st (g # gs) =
     (case growGroup idxAdj st g of
        None \<Rightarrow> None
      | Some st' \<Rightarrow> growRound idxAdj st' gs)"

definition unassignedCount :: "int list \<Rightarrow> nat" where
  "unassignedCount assign = length (filter (\<lambda>v. v = - 1) assign)"

lemma unassignedCount_claim:
  assumes "isUnassigned assign idx"
  shows "unassignedCount (assign[idx := int g]) < unassignedCount assign"
proof -
  from assms have i: "idx < length assign" "assign ! idx = - 1"
    by (simp_all add: isUnassigned_def)
  define pre post where "pre = take idx assign" and "post = drop (Suc idx) assign"
  have "assign = pre @ assign ! idx # post"
    unfolding pre_def post_def using i(1) by (rule id_take_nth_drop)
  then have a: "assign = pre @ (- 1) # post"
    by (simp only: i(2))
  have b: "assign[idx := int g] = pre @ int g # post"
    using i(1) by (simp add: pre_def post_def upd_conv_take_nth_drop)
  have "unassignedCount (pre @ int g # post) < unassignedCount (pre @ (- 1) # post)"
    by (simp add: unassignedCount_def)
  then show ?thesis by (simp only: a [symmetric] b)
qed

lemma claimTile_progress:
  assumes "claimTile idxAdj g st idx = Some st'"
  shows "unassignedCount (fst st') \<le> unassignedCount (fst st)
       \<and> (snd (snd st') \<longrightarrow> snd (snd st) \<or> unassignedCount (fst st') < unassignedCount (fst st))"
proof -
  obtain assign front progress where st: "st = (assign, front, progress)"
    by (cases st) auto
  show ?thesis
  proof (cases "isUnassigned assign idx")
    case True
    with assms st unassignedCount_claim [OF True, of g] show ?thesis
      by (auto split: if_splits)
  next
    case False
    with assms st show ?thesis by (auto split: if_splits)
  qed
qed

lemma claimAll_progress:
  assumes "claimAll idxAdj g st frontier = Some st'"
  shows "unassignedCount (fst st') \<le> unassignedCount (fst st)
       \<and> (snd (snd st') \<longrightarrow> snd (snd st) \<or> unassignedCount (fst st') < unassignedCount (fst st))"
  using assms
proof (induction frontier arbitrary: st)
  case Nil
  then show ?case by simp
next
  case (Cons idx frontier)
  then obtain st1 where s1: "claimTile idxAdj g st idx = Some st1"
    and s2: "claimAll idxAdj g st1 frontier = Some st'"
    by (auto split: option.splits)
  from claimTile_progress [OF s1] Cons.IH [OF s2] show ?case by auto
qed

lemma growGroup_progress:
  assumes "growGroup idxAdj st g = Some st'"
  shows "unassignedCount (fst st') \<le> unassignedCount (fst st)
       \<and> (snd (snd st') \<longrightarrow> snd (snd st) \<or> unassignedCount (fst st') < unassignedCount (fst st))"
proof -
  obtain assign fronts progress where st: "st = (assign, fronts, progress)"
    by (cases st) auto
  from assms st obtain assign' front' progress' where
    c: "claimAll idxAdj g (assign, [], progress) (fronts ! g) = Some (assign', front', progress')"
    and st': "st' = (assign', fronts[g := front'], progress')"
    by (auto split: option.splits)
  from claimAll_progress [OF c] st st' show ?thesis by simp
qed

lemma growRound_progress:
  assumes "growRound idxAdj st gs = Some st'"
  shows "unassignedCount (fst st') \<le> unassignedCount (fst st)
       \<and> (snd (snd st') \<longrightarrow> snd (snd st) \<or> unassignedCount (fst st') < unassignedCount (fst st))"
  using assms
proof (induction gs arbitrary: st)
  case Nil
  then show ?case by simp
next
  case (Cons g gs)
  then obtain st1 where s1: "growGroup idxAdj st g = Some st1"
    and s2: "growRound idxAdj st1 gs = Some st'"
    by (auto split: option.splits)
  from growGroup_progress [OF s1] Cons.IH [OF s2] show ?case by auto
qed

text \<open>The loop \<open>let progress = true; while (progress) { progress = false; ... }\<close>.\<close>

function growLoop :: "adjacency \<Rightarrow> nat \<Rightarrow> int list \<Rightarrow> nat list list \<Rightarrow> int list option" where
  "growLoop idxAdj k assign fronts =
     (case growRound idxAdj (assign, fronts, False) [0..<k] of
        None \<Rightarrow> None
      | Some (assign', fronts', progress) \<Rightarrow>
          if progress then growLoop idxAdj k assign' fronts' else Some assign')"
  by pat_completeness auto
termination
proof (relation "measure (\<lambda>(idxAdj, k, assign, fronts). unassignedCount assign)", goal_cases)
  case 1
  then show ?case by simp
next
  case (2 idxAdj k assign fronts x2 x1 x2a x1a x2b)
  then have "growRound idxAdj (assign, fronts, False) [0..<k] = Some (x1, x1a, True)"
    by simp
  from growRound_progress [OF this] show ?case by simp
qed

declare growLoop.simps [simp del]

text \<open>
  The loop that builds the groups: \<open>const g = assign[i] !== -1 ? assign[i] : 0;
  groups[g].push(polys[i])\<close>.
\<close>

fun collectGroups :: "tile list \<Rightarrow> int list \<Rightarrow> nat list \<Rightarrow> tile list list \<Rightarrow> tile list list option" where
  "collectGroups polys assign [] groups = Some groups"
| "collectGroups polys assign (i # is) groups =
     (if (if assign ! i \<noteq> - 1 then nat (assign ! i) else 0) < length groups
      then collectGroups polys assign is
             (groups[(if assign ! i \<noteq> - 1 then nat (assign ! i) else 0)
                := groups ! (if assign ! i \<noteq> - 1 then nat (assign ! i) else 0) @ [polys ! i]])
      else None)"

text \<open>
  The connectivity prune \<open>groups.map((g) => ...)\<close>, with the pool it fills.
  \<open>comps.sort((a, b) => b.length - a.length)\<close> is a stable sort by descending length.
\<close>

fun pruneGroups :: "arena \<Rightarrow> tile list list \<Rightarrow> tile list list \<times> tile list
    \<Rightarrow> (tile list list \<times> tile list) option" where
  "pruneGroups geom [] (connectedGroups, pool) = Some (connectedGroups, pool)"
| "pruneGroups geom (g # gs) (connectedGroups, pool) =
     (case splitConnectedComponents geom (Some g) of
        None \<Rightarrow> None
      | Some comps \<Rightarrow>
          if length comps \<le> 1 then pruneGroups geom gs (connectedGroups @ [g], pool)
          else pruneGroups geom gs
                 (connectedGroups @ [sort_key (\<lambda>c. - int (length c)) comps ! 0],
                  pool @ concat (drop 1 (sort_key (\<lambda>c. - int (length c)) comps))))"

text \<open>
  \<open>growConnectedGroups(polys, k, minTiles)\<close>; the value is the tuple
  \<open>(groups, pool, assign, idxAdj)\<close>.
\<close>

definition growConnectedGroups :: "lib \<Rightarrow> point \<Rightarrow> arena \<Rightarrow> tile list \<Rightarrow> nat \<Rightarrow> int
    \<Rightarrow> (tile list list \<times> tile list \<times> int list \<times> adjacency) option" where
  "growConnectedGroups L mapCenter geom polys k minTiles =
     (let centers = generateCentersInPolygons L mapCenter k (map geom polys);
          idxAdj = buildAdjacency (map geom polys);
          N = length polys;
          centerPos = map Some centers
      in case fillQueues (\<lambda>i. polygonCentroid L (geom (polys ! i))) centerPos k [0..<N]
                (replicate k []) of
           None \<Rightarrow> None
         | Some queues \<Rightarrow>
             (case growLoop idxAdj k (replicate N (- 1)) (map (\<lambda>q. foldl setAdd [] q) queues) of
                None \<Rightarrow> None
              | Some assign \<Rightarrow>
                  (case collectGroups polys assign [0..<N] (replicate k []) of
                     None \<Rightarrow> None
                   | Some groups \<Rightarrow>
                       (case pruneGroups geom groups ([], []) of
                          None \<Rightarrow> None
                        | Some (connectedGroups, pool) \<Rightarrow> Some (connectedGroups, pool, assign, idxAdj)))))"

section \<open>Rebalancing: \<open>rebalanceBoundaries\<close>\<close>

text \<open>\<open>shareEdge(p1, p2)\<close>: some edge of \<open>p1\<close> is an edge of \<open>p2\<close>, in either direction.\<close>

definition shareEdge :: "polygon \<Rightarrow> polygon \<Rightarrow> bool" where
  "shareEdge p1 p2 =
     list_ex (\<lambda>e1. list_ex (\<lambda>e2. (fst e1 = fst e2 \<and> snd e1 = snd e2)
                                  \<or> (fst e1 = snd e2 \<and> snd e1 = fst e2)) (edgesOf p2))
       (edgesOf p1)"

text \<open>The helper \<open>staysConnectedAfterRemoval(groupTiles, removePoly)\<close>.\<close>

definition staysConnectedAfterRemoval :: "arena \<Rightarrow> tile list \<Rightarrow> tile \<Rightarrow> bool option" where
  "staysConnectedAfterRemoval geom groupTiles removePoly =
     (if length (filter (\<lambda>p. p \<noteq> removePoly) groupTiles) = 0 then Some False
      else map_option (\<lambda>comps. length comps = 1)
             (splitConnectedComponents geom (Some (filter (\<lambda>p. p \<noteq> removePoly) groupTiles))))"

text \<open>
  Step A, \<open>pool.forEach(assignToNearest)\<close>: the group centers are those computed before the
  pool is absorbed.
\<close>

fun absorbPool :: "(tile \<Rightarrow> point option) \<Rightarrow> point option list \<Rightarrow> nat \<Rightarrow> tile list list \<Rightarrow> tile list
    \<Rightarrow> tile list list option" where
  "absorbPool cen groupCenters k groups [] = Some groups"
| "absorbPool cen groupCenters k groups (poly # pool) =
     (case nearestIndex (cen poly) groupCenters k of
        None \<Rightarrow> None
      | Some best \<Rightarrow>
          if best < length groups
          then absorbPool cen groupCenters k (groups[best := groups ! best @ [poly]]) pool
          else None)"

text \<open>
  The loop \<open>for (const t of donorTiles)\<close> of one donor: the first tile that touches the
  receiver and whose removal leaves the donor connected.
\<close>

fun findDonorTile :: "arena \<Rightarrow> tile list \<Rightarrow> tile list \<Rightarrow> tile list \<Rightarrow> tile option option" where
  "findDonorTile geom receiver donor [] = Some None"
| "findDonorTile geom receiver donor (t # ts) =
     (if \<not> list_ex (\<lambda>r. shareEdge (geom t) (geom r)) receiver
      then findDonorTile geom receiver donor ts
      else (case staysConnectedAfterRemoval geom donor t of
              None \<Rightarrow> None
            | Some ok \<Rightarrow> if \<not> ok then findDonorTile geom receiver donor ts else Some (Some t)))"

text \<open>The loop \<open>for (const gj of donors)\<close>: the first donor that has such a tile.\<close>

fun findTransfer :: "arena \<Rightarrow> tile list list \<Rightarrow> nat \<Rightarrow> nat list \<Rightarrow> (nat \<times> tile) option option" where
  "findTransfer geom groups gi [] = Some None"
| "findTransfer geom groups gi (gj # donors) =
     (case findDonorTile geom (groups ! gi) (groups ! gj) (groups ! gj) of
        None \<Rightarrow> None
      | Some None \<Rightarrow> findTransfer geom groups gi donors
      | Some (Some t) \<Rightarrow> Some (Some (gj, t)))"

text \<open>\<open>groups[gj] = groups[gj].filter((p) => p !== t); groups[gi].push(t)\<close>\<close>

definition moveTile :: "tile list list \<Rightarrow> nat \<Rightarrow> nat \<Rightarrow> tile \<Rightarrow> tile list list" where
  "moveTile groups gi gj t =
     (groups[gj := filter (\<lambda>p. p \<noteq> t) (groups ! gj)])
       [gi := (groups[gj := filter (\<lambda>p. p \<noteq> t) (groups ! gj)]) ! gi @ [t]]"

definition donorsOf :: "nat \<Rightarrow> int \<Rightarrow> tile list list \<Rightarrow> nat \<Rightarrow> nat list" where
  "donorsOf k minTiles groups gi =
     filter (\<lambda>gj. gj \<noteq> gi \<and> int (length (groups ! gj)) > minTiles) [0..<k]"

text \<open>
  The body of \<open>for (const gi of need)\<close>. Without donors the \<open>continue\<close> skips the update of
  \<open>need\<close>; \<open>need.splice(need.indexOf(gi), 1)\<close> removes the first occurrence of \<open>gi\<close>.
\<close>

definition exchangeFor :: "arena \<Rightarrow> nat \<Rightarrow> int \<Rightarrow> tile list list \<Rightarrow> nat list \<Rightarrow> nat
    \<Rightarrow> (tile list list \<times> nat list) option" where
  "exchangeFor geom k minTiles groups need gi =
     (if length (donorsOf k minTiles groups gi) = 0 then Some (groups, need)
      else (case findTransfer geom groups gi (donorsOf k minTiles groups gi) of
              None \<Rightarrow> None
            | Some None \<Rightarrow>
                Some (groups, if int (length (groups ! gi)) \<ge> minTiles then remove1 gi need else need)
            | Some (Some (gj, t)) \<Rightarrow>
                Some (moveTile groups gi gj t,
                      if int (length (moveTile groups gi gj t ! gi)) \<ge> minTiles
                      then remove1 gi need else need)))"

lemma exchangeFor_need_length:
  assumes "exchangeFor geom k minTiles groups need gi = Some (groups', need')"
  shows "length need' \<le> length need"
proof -
  from assms have "need' = need \<or> need' = remove1 gi need"
    by (auto simp: exchangeFor_def split: if_splits option.splits)
  then show ?thesis by (auto simp: length_remove1)
qed

text \<open>
  The loop \<open>for (const gi of need)\<close>: the array iterator reads \<open>need[p]\<close> and advances \<open>p\<close>
  while \<open>p < need.length\<close>, on the array as the body has left it.
\<close>

function scanNeed :: "arena \<Rightarrow> nat \<Rightarrow> int \<Rightarrow> tile list list \<Rightarrow> nat list \<Rightarrow> nat
    \<Rightarrow> (tile list list \<times> nat list) option" where
  "scanNeed geom k minTiles groups need p =
     (if p < length need then
        (case exchangeFor geom k minTiles groups need (need ! p) of
           None \<Rightarrow> None
         | Some (groups', need') \<Rightarrow> scanNeed geom k minTiles groups' need' (p + 1))
      else Some (groups, need))"
  by pat_completeness auto
termination
proof (relation "measure (\<lambda>(geom, k, minTiles, groups, need, p). length need - p)", goal_cases)
  case 1
  then show ?case by simp
next
  case (2 geom k minTiles groups need p x2 x1 x2a)
  then have "exchangeFor geom k minTiles groups need (need ! p) = Some (x1, x2a)"
    by simp
  from exchangeFor_need_length [OF this] 2(1) show ?case by simp
qed

declare scanNeed.simps [simp del]

text \<open>The loop \<open>for (let round = 0; round < 20 && need.length; round++)\<close>.\<close>

function exchangeRounds :: "arena \<Rightarrow> nat \<Rightarrow> int \<Rightarrow> nat \<Rightarrow> tile list list \<Rightarrow> nat list
    \<Rightarrow> tile list list option" where
  "exchangeRounds geom k minTiles roundNo groups need =
     (if roundNo < 20 \<and> length need \<noteq> 0 then
        (case scanNeed geom k minTiles groups need 0 of
           None \<Rightarrow> None
         | Some (groups', need') \<Rightarrow> exchangeRounds geom k minTiles (roundNo + 1) groups' need')
      else Some groups)"
  by pat_completeness auto
termination
  by (relation "measure (\<lambda>(geom, k, minTiles, roundNo, groups, need). 20 - roundNo)") auto

declare exchangeRounds.simps [simp del]

text \<open>
  \<open>rebalanceBoundaries(groups, pool, idxAdj, minTiles, targetCounts)\<close>. The maps
  \<open>tileToGroup\<close> and \<open>groupNeighbors\<close> are built and never read; \<open>idxAdj\<close> and
  \<open>targetCounts\<close> are not read either.
\<close>

definition rebalanceBoundaries :: "lib \<Rightarrow> arena \<Rightarrow> tile list list \<Rightarrow> tile list \<Rightarrow> adjacency \<Rightarrow> int \<Rightarrow> nat
    \<Rightarrow> tile list list option" where
  "rebalanceBoundaries L geom groups pool idxAdj minTiles targetCounts =
     (let k = length groups;
          groupCenters = map (\<lambda>g. polygonCentroid L (concat (map geom g))) groups
      in case absorbPool (\<lambda>p. polygonCentroid L (geom p)) groupCenters k groups pool of
           None \<Rightarrow> None
         | Some groups1 \<Rightarrow>
             exchangeRounds geom k minTiles 0 groups1
               (filter (\<lambda>i. int (length (groups1 ! i)) < minTiles) [0..<k]))"

text \<open>
  \<open>assignCountriesWithinRegion\<close>: the grower followed by the rebalancer with the same
  parameters, as \<open>createMap\<close> also runs them for the regions of the mainland.
\<close>

definition assignCountriesWithinRegion :: "lib \<Rightarrow> point \<Rightarrow> arena \<Rightarrow> tile list \<Rightarrow> nat \<Rightarrow> int
    \<Rightarrow> tile list list option" where
  "assignCountriesWithinRegion L mapCenter geom regionTiles countriesPerRegion minTilesCountry =
     (case growConnectedGroups L mapCenter geom regionTiles countriesPerRegion minTilesCountry of
        None \<Rightarrow> None
      | Some (groups, pool, assign, idxAdj) \<Rightarrow>
          rebalanceBoundaries L geom groups pool idxAdj minTilesCountry countriesPerRegion)"

section \<open>Connectivity: \<open>largestConnectedComponent\<close>\<close>

text \<open>\<open>edges.get(k).push(idx)\<close> on the entry of a key that is present.\<close>

definition omPush :: "('k \<times> nat list) list \<Rightarrow> 'k \<Rightarrow> nat \<Rightarrow> ('k \<times> nat list) list" where
  "omPush m k idx = map (\<lambda>(k', l). if k' = k then (k', l @ [idx]) else (k', l)) m"







section \<open>Count repair: \<open>forceAssignWithConnectivity\<close>\<close>

text \<open>
  \<open>_.maxBy(_.range(validGroups.length), (i) => validGroups[i].length)\<close>: the first index of
  a longest group, and \<open>undefined\<close> for no group at all.
\<close>

definition largestIdx :: "'a list list \<Rightarrow> nat option" where
  "largestIdx validGroups =
     (if length validGroups = 0 then None
      else Some (foldl (\<lambda>best i. if length (validGroups ! i) > length (validGroups ! best)
                                   then i else best) 0 [1..<length validGroups]))"

text \<open>
  The loop \<open>while (validGroups.length < numGroups)\<close>. \<open>largest.splice(0, half)\<close> takes the
  first \<open>half\<close> tiles out of the largest group, and they are pushed as a new group. With no
  group, \<open>validGroups[undefined].length\<close> throws.
\<close>

function repairCount :: "int \<Rightarrow> nat \<Rightarrow> 'a list list \<Rightarrow> 'a list list option" where
  "repairCount minTiles numGroups validGroups =
     (if length validGroups < numGroups then
        (case largestIdx validGroups of
           None \<Rightarrow> None
         | Some largestIndex \<Rightarrow>
             if int (length (validGroups ! largestIndex)) \<le> minTiles * 2 then Some validGroups
             else repairCount minTiles numGroups
                    (validGroups[largestIndex :=
                         drop (length (validGroups ! largestIndex) div 2) (validGroups ! largestIndex)]
                       @ [take (length (validGroups ! largestIndex) div 2)
                            (validGroups ! largestIndex)]))
      else Some validGroups)"
  by pat_completeness auto
termination
  by (relation "measure (\<lambda>(minTiles, numGroups, validGroups). numGroups - length validGroups)")
     auto

declare repairCount.simps [simp del]

text \<open>The first loop: every tile is pushed to the group of its nearest center.\<close>

fun assignToCenters :: "(tile \<Rightarrow> point option) \<Rightarrow> point option list \<Rightarrow> tile list list \<Rightarrow> tile list
    \<Rightarrow> tile list list option" where
  "assignToCenters cen centerPos groups [] = Some groups"
| "assignToCenters cen centerPos groups (poly # polygons) =
     (case nearestIndex (cen poly) centerPos (length centerPos) of
        None \<Rightarrow> None
      | Some idx \<Rightarrow>
          if idx < length groups
          then assignToCenters cen centerPos (groups[idx := groups ! idx @ [poly]]) polygons
          else None)"

text \<open>\<open>groups.forEach((g) => connectedGroups.push(...this.splitConnectedComponents(g)))\<close>\<close>

fun splitAll :: "arena \<Rightarrow> tile list list \<Rightarrow> tile list list \<Rightarrow> tile list list option" where
  "splitAll geom [] connectedGroups = Some connectedGroups"
| "splitAll geom (g # groups) connectedGroups =
     (case splitConnectedComponents geom (Some g) of
        None \<Rightarrow> None
      | Some comps \<Rightarrow> splitAll geom groups (connectedGroups @ comps))"

text \<open>
  The orphans go to the valid group whose centroid, computed from the group as it is then,
  is nearest; with no valid group \<open>validGroups[0].push\<close> throws.
\<close>

fun mergeOrphans :: "lib \<Rightarrow> arena \<Rightarrow> tile list list \<Rightarrow> tile list \<Rightarrow> tile list list option" where
  "mergeOrphans L geom validGroups [] = Some validGroups"
| "mergeOrphans L geom validGroups (poly # orphans) =
     (case nearestIndex (polygonCentroid L (geom poly))
             (map (\<lambda>g. polygonCentroid L (concat (map geom g))) validGroups)
             (length validGroups) of
        None \<Rightarrow> None
      | Some idx \<Rightarrow>
          if idx < length validGroups
          then mergeOrphans L geom (validGroups[idx := validGroups ! idx @ [poly]]) orphans
          else None)"

text \<open>\<open>forceAssignWithConnectivity(polygons, numGroups, minTiles)\<close>\<close>

definition forceAssignWithConnectivity :: "lib \<Rightarrow> point \<Rightarrow> arena \<Rightarrow> tile list \<Rightarrow> nat \<Rightarrow> int
    \<Rightarrow> tile list list option" where
  "forceAssignWithConnectivity L mapCenter geom polygons numGroups minTiles =
     (let centers = generateCentersInPolygons L mapCenter numGroups (map geom polygons)
      in case assignToCenters (\<lambda>p. polygonCentroid L (geom p)) (map Some centers)
                (replicate numGroups []) polygons of
           None \<Rightarrow> None
         | Some groups \<Rightarrow>
             (case splitAll geom groups [] of
                None \<Rightarrow> None
              | Some connectedGroups \<Rightarrow>
                  (case mergeOrphans L geom
                          (filter (\<lambda>g. int (length g) \<ge> minTiles) connectedGroups)
                          (concat (filter (\<lambda>g. \<not> int (length g) \<ge> minTiles) connectedGroups)) of
                     None \<Rightarrow> None
                   | Some validGroups \<Rightarrow> repairCount minTiles numGroups validGroups)))"

section \<open>Specification vocabulary\<close>

text \<open>The set of indices marked in \<open>visited\<close>, and the edge relation of an adjacency map.\<close>

definition visitedSet :: "bool list \<Rightarrow> nat set" where
  "visitedSet visited = {v. isVisited visited v}"

definition adjRel :: "adjacency \<Rightarrow> (nat \<times> nat) set" where
  "adjRel adj = {(u, v). u < length adj \<and> v \<in> set (adj ! u)}"

definition adjInRange :: "adjacency \<Rightarrow> bool" where
  "adjInRange adj = (\<forall>l\<in>set adj. \<forall>v\<in>set l. v < length adj)"

definition linkInv :: "nat \<Rightarrow> (edge \<rightharpoonup> nat) \<times> adjacency \<Rightarrow> bool" where
  "linkInv n st \<longleftrightarrow> length (snd st) = n \<and> (\<forall>k i. fst st k = Some i \<longrightarrow> i < n)
     \<and> Range (adjRel (snd st)) \<subseteq> {..<n} \<and> sym (adjRel (snd st))"

text \<open>
  The candidates that seeding accepts for a hull: the shifted Poisson points inside the hull,
  then the draws inside the hull among the 5000 rejection attempts.
\<close>

definition acceptedCenters :: "lib \<Rightarrow> point list \<Rightarrow> point list" where
  "acceptedCenters L hullPts =
     (let minX = Min (set (map fst hullPts)); maxX = Max (set (map fst hullPts));
          minY = Min (set (map snd hullPts)); maxY = Max (set (map snd hullPts));
          raw = poissonFill L (maxX - minX, maxY - minY)
                  (max 30 ((maxX - minX + (maxY - minY)) / 40))
                  (max 60 ((maxX - minX + (maxY - minY)) / 25))
      in filter (polygonContains L hullPts) (map (\<lambda>r. (fst r + minX, snd r + minY)) raw)
         @ filter (polygonContains L hullPts)
             (map (rejectionDraw L (minX, maxX) (minY, maxY)) [0..<5000]))"

text \<open>The invariant of the array \<open>assign\<close> during growth: \<open>-1\<close> or a group index.\<close>

definition growInv :: "nat \<Rightarrow> nat \<Rightarrow> int list \<Rightarrow> bool" where
  "growInv N k assign \<longleftrightarrow> length assign = N
     \<and> (\<forall>v\<in>set assign. v = - 1 \<or> (0 \<le> v \<and> v < int k))"

text \<open>A list that is a run of consecutive elements of another one.\<close>

definition sliceOf :: "'a list \<Rightarrow> 'a list \<Rightarrow> bool" where
  "sliceOf g g0 \<longleftrightarrow> (\<exists>a b. g = take a (drop b g0))"


definition adjWf :: "nat \<Rightarrow> adjacency \<Rightarrow> bool" where
  "adjWf n adj \<longleftrightarrow> length adj = n \<and> Range (adjRel adj) \<subseteq> {..<n} \<and> sym (adjRel adj)"


text \<open>
  A traversal result that is a connected component: the indices reachable from its first
  element, each once, the first element being the least. \<open>compInv\<close> is the invariant of
  the loop over the start indices, before index \<open>i0\<close>.
\<close>

definition isComponent :: "adjacency \<Rightarrow> nat list \<Rightarrow> bool" where
  "isComponent adj c \<longleftrightarrow> c \<noteq> [] \<and> distinct c \<and> set c = (adjRel adj)\<^sup>* `` {hd c}
     \<and> (\<forall>u\<in>set c. hd c \<le> u)"

definition compInv :: "adjacency \<Rightarrow> nat \<Rightarrow> nat set \<Rightarrow> nat list list \<Rightarrow> bool" where
  "compInv adj i0 V cs \<longleftrightarrow> V = set (concat cs) \<and> {..<i0} \<subseteq> V \<and> adjRel adj `` V \<subseteq> V
     \<and> distinct (concat cs) \<and> (\<forall>c\<in>set cs. isComponent adj c \<and> hd c < i0)
     \<and> sorted_wrt (<) (map hd cs)"





section \<open>Example inputs\<close>

text \<open>
  The centroid as d3-polygon computes it (the signed-area sums over the closed vertex
  list), on real numbers; a zero area gives no finite centroid.
\<close>

definition d3Centroid :: "polygon \<Rightarrow> point option" where
  "d3Centroid polygon =
     (let n = length polygon;
          es = map (\<lambda>i. (polygon ! ((i + n - 1) mod n), polygon ! i)) [0..<n];
          k = sum_list (map (\<lambda>(a, b). fst a * snd b - fst b * snd a) es);
          x = sum_list (map (\<lambda>(a, b). (fst a + fst b) * (fst a * snd b - fst b * snd a)) es);
          y = sum_list (map (\<lambda>(a, b). (snd a + snd b) * (fst a * snd b - fst b * snd a)) es)
      in if k = 0 then None else Some (x / (3 * k), y / (3 * k)))"

text \<open>A library instance whose seeding finds no hull, so that seeds are the jittered ones.\<close>

definition flatLib :: lib where
  "flatLib = \<lparr> polygonCentroid = d3Centroid, polygonHull = (\<lambda>ps. None),
       polygonContains = (\<lambda>h c. False), poissonFill = (\<lambda>shape dmin dmax. []),
       random = (\<lambda>n lower upper. lower) \<rparr>"

text \<open>The axis-parallel square with lower left corner \<open>(x, y)\<close> and side \<open>w\<close>.\<close>

definition square :: "real \<Rightarrow> real \<Rightarrow> real \<Rightarrow> polygon" where
  "square x y w = [(x, y), (x + w, y), (x + w, y + w), (x, y + w)]"

text \<open>An arena that stores one triangle at every reference.\<close>

definition triangleArena :: arena where
  "triangleArena t = [(0, 0), (4, 0), (0, 3)]"

text \<open>
  Two library instances for the hull \<open>(0, 0), (10, 0), (0, 10)\<close>, with the interior of that
  triangle as containment test and every random draw at the upper bound, the corner
  \<open>(10, 10)\<close> of the bounding box. Fewer than three points have no hull, and points that all
  lie on the x axis have the hull of two vertices \<open>(0, 0), (10, 0)\<close>. The Poisson sample of
  \<open>missLib\<close> falls outside the hull, that of \<open>hitLib\<close> inside.
\<close>

definition missLib :: lib where
  "missLib = \<lparr> polygonCentroid = d3Centroid,
       polygonHull = (\<lambda>ps. if length ps < 3 then None
                           else if list_all (\<lambda>p. snd p = 0) ps then Some [(0, 0), (10, 0)]
                           else Some [(0, 0), (10, 0), (0, 10)]),
       polygonContains = (\<lambda>h c. 0 < fst c \<and> 0 < snd c \<and> fst c + snd c < 10),
       poissonFill = (\<lambda>shape dmin dmax. [(9, 9)]),
       random = (\<lambda>n lower upper. upper) \<rparr>"

definition hitLib :: lib where
  "hitLib = missLib \<lparr> poissonFill := (\<lambda>shape dmin dmax. [(1, 1)]) \<rparr>"

text \<open>An arena of unit squares in a row: the tile \<open>t\<close> is the square at \<open>x = t\<close>.\<close>

definition rowArena :: arena where
  "rowArena t = square (real t) 0 1"



section \<open>Properties of the component traversal\<close>

lemma visitedSet_mark [simp]: "visitedSet (markVisited visited v) = insert v (visitedSet visited)"
  by (auto simp: visitedSet_def)

lemma visitedSet_replicate [simp]: "visitedSet (replicate n False) = {}"
  by (auto simp: visitedSet_def isVisited_def)

lemma visitNeighbours_spec:
  assumes "visitNeighbours (visited, queue) vs = (visited', queue')"
  shows "\<exists>new. queue' = queue @ new \<and> distinct new \<and> set new = set vs - visitedSet visited
           \<and> visitedSet visited' = visitedSet visited \<union> set vs"
  using assms
proof (induction vs arbitrary: visited queue)
  case Nil
  then show ?case by simp
next
  case (Cons v vs)
  show ?case
  proof (cases "isVisited visited v")
    case True
    with Cons.prems have "visitNeighbours (visited, queue) vs = (visited', queue')" by simp
    from Cons.IH [OF this] obtain new where
      "queue' = queue @ new" "distinct new" "set new = set vs - visitedSet visited"
      "visitedSet visited' = visitedSet visited \<union> set vs" by blast
    moreover have "v \<in> visitedSet visited" using True by (simp add: visitedSet_def)
    ultimately show ?thesis by (intro exI [of _ new]) auto
  next
    case False
    with Cons.prems have "visitNeighbours (markVisited visited v, queue @ [v]) vs = (visited', queue')"
      by simp
    from Cons.IH [OF this] obtain new where new:
      "queue' = (queue @ [v]) @ new" "distinct new"
      "set new = set vs - visitedSet (markVisited visited v)"
      "visitedSet visited' = visitedSet (markVisited visited v) \<union> set vs" by blast
    moreover have "v \<notin> visitedSet visited" using False by (simp add: visitedSet_def)
    ultimately show ?thesis by (intro exI [of _ "v # new"]) auto
  qed
qed

lemma bfs_acc_gen:
  "bfs get adj visited queue (acc @ map get ci)
     = map_option (\<lambda>(v, c). (v, acc @ map get c)) (bfs (\<lambda>u. u) adj visited queue ci)"
proof (induction "\<lambda>u::nat. u" adj visited queue ci rule: bfs.induct)
  case (1 adj visited acc)
  then show ?case by (simp add: bfs.simps)
next
  case (2 adj visited u queue ci)
  show ?case
  proof (cases "u < length adj")
    case True
    obtain v1 q1 where vn: "visitNeighbours (visited, queue) (adj ! u) = (v1, q1)"
      by fastforce
    from 2 [OF True vn [symmetric]] vn True show ?thesis by (simp add: bfs.simps)
  next
    case False
    then show ?thesis by (simp add: bfs.simps)
  qed
qed

lemma bfs_acc:
  "bfs get adj visited queue acc
     = map_option (\<lambda>(v, c). (v, acc @ map get c)) (bfs (\<lambda>u. u) adj visited queue [])"
  using bfs_acc_gen [of get adj visited queue acc "[]"] by simp

lemma bfs_spec:
  assumes "bfs (\<lambda>u. u) adj visited queue ci = Some (visited', c')"
  shows "\<exists>new. c' = ci @ queue @ new \<and> distinct new \<and> set new \<inter> visitedSet visited = {}
           \<and> visitedSet visited' = visitedSet visited \<union> set new
           \<and> (\<forall>u\<in>set (queue @ new). u < length adj \<and> set (adj ! u) \<subseteq> visitedSet visited')
           \<and> set new \<subseteq> (adjRel adj)\<^sup>+ `` set queue"
  using assms
proof (induction "\<lambda>u::nat. u" adj visited queue ci rule: bfs.induct)
  case (1 adj visited acc)
  then show ?case by (simp add: bfs.simps)
next
  case (2 adj visited u queue ci)
  from "2.prems" have u: "u < length adj" by (simp add: bfs.simps split: if_splits)
  obtain v1 q1 where vn: "visitNeighbours (visited, queue) (adj ! u) = (v1, q1)"
    by fastforce
  from visitNeighbours_spec [OF vn] obtain new1 where new1:
    "q1 = queue @ new1" "distinct new1" "set new1 = set (adj ! u) - visitedSet visited"
    "visitedSet v1 = visitedSet visited \<union> set (adj ! u)" by blast
  from "2.prems" u vn have "bfs (\<lambda>u. u) adj v1 q1 (ci @ [u]) = Some (visited', c')"
    by (simp add: bfs.simps)
  from "2.hyps" [OF u vn [symmetric] this] obtain new2 where new2:
    "c' = (ci @ [u]) @ q1 @ new2" "distinct new2" "set new2 \<inter> visitedSet v1 = {}"
    "visitedSet visited' = visitedSet v1 \<union> set new2"
    "\<forall>w\<in>set (q1 @ new2). w < length adj \<and> set (adj ! w) \<subseteq> visitedSet visited'"
    "set new2 \<subseteq> (adjRel adj)\<^sup>+ `` set q1" by blast
  have a: "c' = ci @ (u # queue) @ (new1 @ new2)" using new1 new2 by simp
  have b: "distinct (new1 @ new2)" using new1 new2 by auto
  have c: "set (new1 @ new2) \<inter> visitedSet visited = {}" using new1 new2 by auto
  have d: "visitedSet visited' = visitedSet visited \<union> set (new1 @ new2)" using new1 new2 by auto
  have e: "\<forall>w\<in>set ((u # queue) @ (new1 @ new2)). w < length adj \<and> set (adj ! w) \<subseteq> visitedSet visited'"
    using new1 new2 u by auto
  have n1: "set new1 \<subseteq> (adjRel adj)\<^sup>+ `` set (u # queue)"
    using new1(3) u by (auto simp: adjRel_def)
  have "(adjRel adj)\<^sup>+ `` set q1 \<subseteq> (adjRel adj)\<^sup>+ `` set (u # queue)"
  proof
    fix w assume "w \<in> (adjRel adj)\<^sup>+ `` set q1"
    then obtain s where s: "s \<in> set q1" "(s, w) \<in> (adjRel adj)\<^sup>+" by auto
    show "w \<in> (adjRel adj)\<^sup>+ `` set (u # queue)"
    proof (cases "s \<in> set queue")
      case True
      with s show ?thesis by auto
    next
      case False
      with s new1 have "s \<in> set (adj ! u)" by auto
      with u have "(u, s) \<in> adjRel adj" by (simp add: adjRel_def)
      with s have "(u, w) \<in> (adjRel adj)\<^sup>+" by auto
      then show ?thesis by auto
    qed
  qed
  with new2 n1 have f: "set (new1 @ new2) \<subseteq> (adjRel adj)\<^sup>+ `` set (u # queue)" by auto
  from a b c d e f show ?case by blast
qed

lemma bfs_total:
  assumes "adjInRange adj" "\<forall>u\<in>set queue. u < length adj"
  shows "\<exists>r. bfs get adj visited queue acc = Some r"
  using assms
proof (induction get adj visited queue acc rule: bfs.induct)
  case (1 get adj visited acc)
  then show ?case by (simp add: bfs.simps)
next
  case (2 get adj visited u queue acc)
  from "2.prems" have u: "u < length adj" by simp
  obtain v1 q1 where vn: "visitNeighbours (visited, queue) (adj ! u) = (v1, q1)"
    by fastforce
  from visitNeighbours_spec [OF vn] obtain new1 where new1:
    "q1 = queue @ new1" "set new1 = set (adj ! u) - visitedSet visited" by blast
  have "\<forall>w\<in>set (adj ! u). w < length adj"
    using "2.prems"(1) u unfolding adjInRange_def by (meson nth_mem)
  with new1 "2.prems"(2) have "\<forall>w\<in>set q1. w < length adj" by auto
  from "2.IH" [OF u vn [symmetric] "2.prems"(1) this] u vn show ?case by (simp add: bfs.simps)
qed

lemma componentsFrom_total:
  assumes "adjInRange adj" "\<forall>i\<in>set is. i < length adj"
  shows "\<exists>r. componentsFrom get adj is visited cs = Some r"
  using assms
proof (induction "is" arbitrary: visited cs)
  case Nil
  then show ?case by simp
next
  case (Cons i "is")
  show ?case
  proof (cases "isVisited visited i")
    case True
    with Cons show ?thesis by simp
  next
    case False
    from Cons.prems have "\<forall>u\<in>set [i]. u < length adj" by simp
    from bfs_total [OF Cons.prems(1) this]
    obtain v1 c1 where "bfs get adj (markVisited visited i) [i] [] = Some (v1, c1)"
      by fastforce
    with False Cons show ?thesis by simp
  qed
qed

lemma componentsFrom_get:
  "componentsFrom get adj is visited (map (map get) cs)
     = map_option (map (map get)) (componentsFrom (\<lambda>u. u) adj is visited cs)"
proof (induction "is" arbitrary: visited cs)
  case Nil
  then show ?case by simp
next
  case (Cons i "is")
  show ?case
  proof (cases "isVisited visited i")
    case True
    with Cons show ?thesis by simp
  next
    case False
    show ?thesis
    proof (cases "bfs (\<lambda>u. u) adj (markVisited visited i) [i] []")
      case None
      with False show ?thesis
        by (simp add: bfs_acc [of get])
    next
      case (Some r)
      obtain v1 c1 where r: "r = (v1, c1)" by fastforce
      have "bfs get adj (markVisited visited i) [i] [] = Some (v1, map get c1)"
        using Some r by (simp add: bfs_acc [of get])
      moreover have "componentsFrom get adj is v1 (map (map get) (cs @ [c1]))
          = map_option (map (map get)) (componentsFrom (\<lambda>u. u) adj is v1 (cs @ [c1]))"
        by (rule Cons.IH)
      ultimately show ?thesis using False Some r by simp
    qed
  qed
qed

lemma componentsFrom_partition:
  assumes "componentsFrom (\<lambda>u. u) adj is visited cs = Some cs'"
    and "distinct (concat cs)" "set (concat cs) = visitedSet visited"
  shows "distinct (concat cs') \<and> set (concat cs') \<subseteq> visitedSet visited \<union> {..<length adj}
           \<and> set is \<union> visitedSet visited \<subseteq> set (concat cs')"
  using assms
proof (induction "is" arbitrary: visited cs)
  case Nil
  then show ?case by auto
next
  case (Cons i "is")
  show ?case
  proof (cases "isVisited visited i")
    case True
    with Cons.prems have "componentsFrom (\<lambda>u. u) adj is visited cs = Some cs'" by simp
    from Cons.IH [OF this Cons.prems(2,3)] True show ?thesis
      by (auto simp: visitedSet_def)
  next
    case False
    with Cons.prems(1) obtain v1 c1 where
      b: "bfs (\<lambda>u. u) adj (markVisited visited i) [i] [] = Some (v1, c1)"
      and rest: "componentsFrom (\<lambda>u. u) adj is v1 (cs @ [c1]) = Some cs'"
      by (auto split: option.splits)
    from bfs_spec [OF b] obtain new where new:
      "c1 = [i] @ new" "distinct new" "set new \<inter> visitedSet (markVisited visited i) = {}"
      "visitedSet v1 = visitedSet (markVisited visited i) \<union> set new"
      "\<forall>u\<in>set ([i] @ new). u < length adj" by auto
    have i: "i \<notin> visitedSet visited" using False by (simp add: visitedSet_def)
    have d: "distinct (concat (cs @ [c1]))"
      using Cons.prems(2,3) new i by auto
    have s: "set (concat (cs @ [c1])) = visitedSet v1"
      using Cons.prems(3) new by auto
    from Cons.IH [OF rest d s] have
      "distinct (concat cs')" "set (concat cs') \<subseteq> visitedSet v1 \<union> {..<length adj}"
      "set is \<union> visitedSet v1 \<subseteq> set (concat cs')" by auto
    moreover have "visitedSet v1 \<subseteq> visitedSet visited \<union> {..<length adj}"
      using new by auto
    moreover have "insert i (visitedSet visited) \<subseteq> visitedSet v1"
      using new by auto
    ultimately show ?thesis by auto
  qed
qed

lemma foldl_invariant:
  assumes "P s" "\<And>x s. x \<in> set xs \<Longrightarrow> P s \<Longrightarrow> P (f s x)"
  shows "P (foldl f s xs)"
  using assms by (induction xs arbitrary: s) auto

lemma length_addNeighbour [simp]: "length (addNeighbour adj i j) = length adj"
  by (simp add: addNeighbour_def)

lemma adjRel_addNeighbour:
  "i < length adj \<Longrightarrow> adjRel (addNeighbour adj i j) = insert (i, j) (adjRel adj)"
  by (auto simp: adjRel_def addNeighbour_def setAdd_def nth_list_update split: if_splits)

lemma adjInRange_iff: "adjInRange adj \<longleftrightarrow> Range (adjRel adj) \<subseteq> {..<length adj}"
proof
  assume r: "adjInRange adj"
  show "Range (adjRel adj) \<subseteq> {..<length adj}"
  proof
    fix v assume "v \<in> Range (adjRel adj)"
    then obtain u where "u < length adj" "v \<in> set (adj ! u)"
      by (auto simp: adjRel_def)
    moreover from this have "adj ! u \<in> set adj" by simp
    ultimately show "v \<in> {..<length adj}"
      using r unfolding adjInRange_def by blast
  qed
next
  assume r: "Range (adjRel adj) \<subseteq> {..<length adj}"
  show "adjInRange adj"
    unfolding adjInRange_def
  proof (intro ballI)
    fix l v assume "l \<in> set adj" "v \<in> set l"
    then obtain u where "u < length adj" "l = adj ! u"
      by (metis in_set_conv_nth)
    with \<open>v \<in> set l\<close> have "(u, v) \<in> adjRel adj" by (simp add: adjRel_def)
    with r show "v < length adj" by auto
  qed
qed

lemma linkEdge_inv:
  assumes "linkInv n st" "idx < n"
  shows "linkInv n (linkEdge idx st e)"
proof -
  obtain em adj where st: "st = (em, adj)" by fastforce
  obtain a b where e: "e = (a, b)" by (cases e) auto
  show ?thesis
  proof (cases "em (b, a)")
    case None
    with assms st e show ?thesis by (auto simp: linkInv_def)
  next
    case (Some j)
    from assms(1) st have len: "length adj = n" and em: "\<And>k i. em k = Some i \<Longrightarrow> i < n"
      unfolding linkInv_def by auto
    from em [OF Some] len have j: "j < n" "length adj = n" by simp_all
    have "adjRel (addNeighbour (addNeighbour adj idx j) j idx)
        = insert (j, idx) (insert (idx, j) (adjRel adj))"
      using j assms(2) by (simp add: adjRel_addNeighbour)
    moreover have "sym (insert (j, idx) (insert (idx, j) (adjRel adj)))"
      using assms(1) st by (auto simp: linkInv_def sym_def)
    ultimately show ?thesis
      using assms st e Some j by (auto simp: linkInv_def)
  qed
qed

lemma linkTile_inv:
  assumes "linkInv n st" "fst ip < n"
  shows "linkInv n (linkTile st ip)"
  unfolding linkTile_def
  by (rule foldl_invariant [where P = "linkInv n"]) (use assms in \<open>auto intro: linkEdge_inv\<close>)

lemma sccAdjacency_inv:
  "linkInv (length polys)
     (foldl linkTile (Map.empty, replicate (length polys) []) (enumerate 0 polys))"
proof (rule foldl_invariant [where P = "linkInv (length polys)"])
  show "linkInv (length polys) (Map.empty, replicate (length polys) [])"
    by (auto simp: linkInv_def adjRel_def sym_def)
next
  fix x s
  assume "x \<in> set (enumerate 0 polys)" "linkInv (length polys) s"
  moreover from this have "fst x < length polys"
    by (simp add: in_set_enumerate_eq)
  ultimately show "linkInv (length polys) (linkTile s x)"
    by (auto intro: linkTile_inv)
qed

lemma sccAdjacency_wf:
  "length (sccAdjacency polys) = length polys" "adjInRange (sccAdjacency polys)"
  "sym (adjRel (sccAdjacency polys))"
  using sccAdjacency_inv [of polys]
  by (auto simp: linkInv_def sccAdjacency_def adjInRange_iff)

lemma splitConnectedComponents_idx:
  "splitConnectedComponents geom (Some polys)
     = map_option (map (map (\<lambda>u. polys ! u)))
         (componentsFrom (\<lambda>u. u) (sccAdjacency (map geom polys)) [0..<length polys]
            (replicate (length polys) False) [])"
  using componentsFrom_get [of "\<lambda>u. polys ! u" _ _ _ "[]"]
  by (cases "polys = []") (simp_all add: splitConnectedComponents_def)

lemma splitConnectedComponents_mset:
  "\<exists>cs. splitConnectedComponents geom (Some polys) = Some cs \<and> mset (concat cs) = mset polys"
proof -
  let ?adj = "sccAdjacency (map geom polys)"
  let ?n = "length polys"
  have len: "length ?adj = ?n" and rng: "adjInRange ?adj"
    using sccAdjacency_wf [of "map geom polys"] by simp_all
  have "\<forall>i\<in>set [0..<?n]. i < length ?adj" using len by simp
  from componentsFrom_total [OF rng this] obtain ci where
    ci: "componentsFrom (\<lambda>u. u) ?adj [0..<?n] (replicate ?n False) [] = Some ci" by blast
  from componentsFrom_partition [OF ci] len
  have "distinct (concat ci)" "set (concat ci) = {..<?n}" by auto
  then have "mset (concat ci) = mset [0..<?n]"
    by (metis atLeast_upt distinct_upt set_eq_iff_mset_eq_distinct)
  then have "mset (map (\<lambda>u. polys ! u) (concat ci)) = mset (map (\<lambda>u. polys ! u) [0..<?n])"
    by (metis mset_map)
  moreover have "map (\<lambda>u. polys ! u) [0..<?n] = polys"
    by (rule map_nth)
  moreover have "concat (map (map (\<lambda>u. polys ! u)) ci) = map (\<lambda>u. polys ! u) (concat ci)"
    by (simp add: map_concat)
  ultimately show ?thesis
    using ci by (simp add: splitConnectedComponents_idx)
qed

section \<open>Properties of the land test\<close>

lemma sin_one_gt_half: "1 / 2 < sin (1::real)"
proof -
  have "pi / 6 < (1::real)" using pi_less_4 by simp
  moreover have "(1::real) \<le> pi / 2" using pi_ge_two by simp
  moreover have "- (pi / 2) \<le> pi / 6" using pi_gt_zero by simp
  ultimately have "sin (pi / 6) < sin (1::real)"
    by (intro sin_monotone_2pi) simp_all
  then show ?thesis by (simp add: sin_30)
qed

lemma islandAngle_east: "islandAngle (70, 0) (0, 0) = 0"
  by (simp add: islandAngle_def atan2_def)

lemma islandLength_east: "islandLength (70, 0) (0, 0) = 70"
proof -
  have "sqrt ((70::real)\<^sup>2) = 70" by simp
  then show ?thesis by (simp add: islandLength_def)
qed

lemma islandR1_east: "islandR1 100 0 0 3 1 = 50 + 40 * sin 1"
  by (simp add: islandR1_def algebra_simps)

lemma islandR2_east: "islandR2 100 0 0 3 1 = 70"
  by (simp add: islandR2_def)

lemma islandR1_bounds:
  assumes "0 < pixelScale"
  shows "0.1 * pixelScale \<le> islandR1 pixelScale angle startAngle bumps 1"
    and "islandR1 pixelScale angle startAngle bumps 1 \<le> 0.9 * pixelScale"
proof -
  let ?s = "sin (startAngle + bumps * angle + cos ((bumps + 3) * angle))"
  have "-1 \<le> ?s" "?s \<le> 1" by simp_all
  then have "0.1 \<le> 0.5 + 0.4 * ?s" "0.5 + 0.4 * ?s \<le> 0.9" by linarith+
  then have "0.1 * pixelScale \<le> (0.5 + 0.4 * ?s) * pixelScale"
    "(0.5 + 0.4 * ?s) * pixelScale \<le> 0.9 * pixelScale"
    using assms by (simp_all only: mult_le_cancel_right_pos)
  then show "0.1 * pixelScale \<le> islandR1 pixelScale angle startAngle bumps 1"
    and "islandR1 pixelScale angle startAngle bumps 1 \<le> 0.9 * pixelScale"
    by (simp_all add: islandR1_def)
qed

lemma islandR2_upper:
  assumes "0 < pixelScale"
  shows "islandR2 pixelScale angle startAngle bumps 1 \<le> 0.9 * pixelScale"
proof -
  let ?s = "sin (startAngle + bumps * angle - sin ((bumps + 2) * angle))"
  have "-1 \<le> ?s" by simp
  then have "0.7 - 0.2 * ?s \<le> 0.9" by linarith
  then have "(0.7 - 0.2 * ?s) * pixelScale \<le> 0.9 * pixelScale"
    using assms by (simp only: mult_le_cancel_right_pos)
  then show ?thesis by (simp add: islandR2_def)
qed

lemma islandLength_origin: "islandLength c c = 0"
  by (simp add: islandLength_def)

lemma islandLength_ge_half_dist:
  "sqrt ((fst c - fst p)\<^sup>2 + (snd c - snd p)\<^sup>2) / 2 \<le> islandLength c p"
  by (simp add: islandLength_def)

section \<open>Properties of the border extraction\<close>

lemma omHas_append [simp]: "omHas (m @ [(k, v)]) k' \<longleftrightarrow> k' = k \<or> omHas m k'"
  by (auto simp: omHas_def)

lemma cancelEdge_fresh:
  assumes "distinct es"
    and "\<forall>e\<in>set es. \<not> omHas m e \<and> \<not> omHas m (snd e, fst e)"
    and "\<forall>e\<in>set es. \<forall>f\<in>set es. e \<noteq> f \<longrightarrow> f \<noteq> (snd e, fst e)"
  shows "foldl cancelEdge m es = m @ map (\<lambda>e. (e, e)) es"
  using assms
proof (induction es arbitrary: m)
  case Nil
  then show ?case by simp
next
  case (Cons e es)
  obtain a b where e: "e = (a, b)" by (cases e) auto
  from Cons.prems(2) e have step: "cancelEdge m e = m @ [(e, e)]"
    by (simp add: omSet_def)
  have fresh: "\<forall>f\<in>set es. \<not> omHas (m @ [(e, e)]) f \<and> \<not> omHas (m @ [(e, e)]) (snd f, fst f)"
  proof
    fix f assume f: "f \<in> set es"
    with Cons.prems(1) have ne: "f \<noteq> e" by auto
    from Cons.prems(3) f ne have "e \<noteq> (snd f, fst f)" by auto
    with ne f Cons.prems(2)
    show "\<not> omHas (m @ [(e, e)]) f \<and> \<not> omHas (m @ [(e, e)]) (snd f, fst f)"
      by auto
  qed
  have d: "distinct es" using Cons.prems(1) by simp
  have r: "\<forall>x\<in>set es. \<forall>f\<in>set es. x \<noteq> f \<longrightarrow> f \<noteq> (snd x, fst x)"
    using Cons.prems(3) by simp
  have "foldl cancelEdge (m @ [(e, e)]) es = (m @ [(e, e)]) @ map (\<lambda>e. (e, e)) es"
    by (rule Cons.IH [OF d fresh r])
  with step show ?case by simp
qed

lemma length_edgesOf [simp]: "length (edgesOf poly) = length poly"
  by (simp add: edgesOf_def)

section \<open>Properties of the seeding\<close>

lemma length_jitterCenters [simp]: "length (jitterCenters L mapCenter num) = num"
  by (simp add: jitterCenters_def)

lemma acceptRaw_form:
  assumes "length centers \<le> num"
  shows "acceptRaw L h minX minY num raw centers
      = centers @ take (num - length centers)
          (filter (polygonContains L h) (map (\<lambda>r. (fst r + minX, snd r + minY)) raw))"
  using assms
proof (induction raw arbitrary: centers)
  case Nil
  then show ?case by simp
next
  case (Cons r raw)
  show ?case
  proof (cases "length centers < num")
    case False
    with Cons.prems show ?thesis by simp
  next
    case True
    then obtain d where d: "num - length centers = Suc d" "num - Suc (length centers) = d"
      by (metis Suc_diff_Suc)
    from True have "length (centers @ [(fst r + minX, snd r + minY)]) \<le> num" by simp
    from Cons.IH [OF this] Cons.IH [OF Cons.prems] True d show ?thesis by simp
  qed
qed

lemma topUp_form:
  assumes "length centers \<le> num" "guard \<le> 5000"
  shows "topUp L h xs ys num guard centers
      = centers @ take (num - length centers)
          (filter (polygonContains L h) (map (rejectionDraw L xs ys) [guard..<5000]))"
  using assms
proof (induction L h xs ys num guard centers rule: topUp.induct)
  case (1 L h xs ys num guard centers)
  show ?case
  proof (cases "length centers < num \<and> guard < 5000")
    case False
    with "1.prems" show ?thesis by (auto simp: topUp.simps [of L h xs ys num guard centers])
  next
    case True
    then obtain d where d: "num - length centers = Suc d" "num - Suc (length centers) = d"
      by (metis Suc_diff_Suc)
    let ?c = "if polygonContains L h (rejectionDraw L xs ys guard)
              then centers @ [rejectionDraw L xs ys guard] else centers"
    have up: "[guard..<5000] = guard # [guard + 1..<5000]"
      using True by (simp add: upt_rec)
    have "length ?c \<le> num" "guard + 1 \<le> 5000" using True by auto
    from "1.IH" [OF True this]
    have "topUp L h xs ys num (guard + 1) ?c
        = ?c @ take (num - length ?c)
            (filter (polygonContains L h) (map (rejectionDraw L xs ys) [guard + 1..<5000]))" .
    moreover have "topUp L h xs ys num guard centers = topUp L h xs ys num (guard + 1) ?c"
      using True by (subst topUp.simps) simp
    ultimately show ?thesis using d up by simp
  qed
qed

lemma take_append_take:
  "take n as @ take (n - length (take n as)) bs = take n (as @ bs)"
  by (cases "n \<le> length as") (simp_all add: min_def)

lemma generateCenters_form:
  assumes "polygonHull L (concat polygons) = Some hullPts" "3 \<le> length hullPts"
  shows "generateCentersInPolygons L mapCenter num polygons = take num (acceptedCenters L hullPts)"
proof -
  define minX maxX minY maxY where "minX = Min (set (map fst hullPts))"
    and "maxX = Max (set (map fst hullPts))" and "minY = Min (set (map snd hullPts))"
    and "maxY = Max (set (map snd hullPts))"
  define raw where "raw = poissonFill L (maxX - minX, maxY - minY)
      (max 30 ((maxX - minX + (maxY - minY)) / 40)) (max 60 ((maxX - minX + (maxY - minY)) / 25))"
  define as where "as = filter (polygonContains L hullPts) (map (\<lambda>r. (fst r + minX, snd r + minY)) raw)"
  define bs where "bs = filter (polygonContains L hullPts)
      (map (rejectionDraw L (minX, maxX) (minY, maxY)) [0..<5000])"
  have a: "acceptRaw L hullPts minX minY num raw [] = take num as"
    using acceptRaw_form [of "[]" num L hullPts minX minY raw] by (simp add: as_def)
  have "topUp L hullPts (minX, maxX) (minY, maxY) num 0 (take num as)
      = take num as @ take (num - length (take num as)) bs"
    by (subst topUp_form) (simp_all add: bs_def)
  also have "\<dots> = take num (as @ bs)" by (rule take_append_take)
  finally have "topUp L hullPts (minX, maxX) (minY, maxY) num 0
      (acceptRaw L hullPts minX minY num raw []) = take num (as @ bs)"
    by (simp only: a)
  moreover have "acceptedCenters L hullPts = as @ bs"
    by (simp add: acceptedCenters_def Let_def as_def bs_def raw_def minX_def maxX_def minY_def maxY_def)
  moreover have "generateCentersInPolygons L mapCenter num polygons
      = topUp L hullPts (minX, maxX) (minY, maxY) num 0 (acceptRaw L hullPts minX minY num raw [])"
    using assms
    by (simp add: generateCentersInPolygons_def Let_def raw_def minX_def maxX_def minY_def maxY_def)
  ultimately show ?thesis by simp
qed

lemma generateCenters_degenerate:
  assumes "polygonHull L (concat polygons) = None
         \<or> (\<exists>hullPts. polygonHull L (concat polygons) = Some hullPts \<and> length hullPts < 3)"
  shows "generateCentersInPolygons L mapCenter num polygons = jitterCenters L mapCenter num"
  using assms by (auto simp: generateCentersInPolygons_def)

lemma set_acceptedCenters: "c \<in> set (acceptedCenters L hullPts) \<Longrightarrow> polygonContains L hullPts c"
  by (auto simp: acceptedCenters_def Let_def)

section \<open>Properties of the rebalancer\<close>

subsection \<open>The split never throws\<close>

lemma splitConnectedComponents_Some:
  obtains cs where "splitConnectedComponents geom (Some polys) = Some cs"
    "mset (concat cs) = mset polys"
  using splitConnectedComponents_mset [of geom polys] by blast

lemma staysConnected_total:
  "\<exists>b. staysConnectedAfterRemoval geom groupTiles removePoly = Some b"
proof -
  obtain cs where "splitConnectedComponents geom
      (Some (filter (\<lambda>p. p \<noteq> removePoly) groupTiles)) = Some cs"
    by (rule splitConnectedComponents_Some)
  then show ?thesis by (auto simp: staysConnectedAfterRemoval_def)
qed

lemma staysConnected_True:
  assumes "staysConnectedAfterRemoval geom groupTiles removePoly = Some True"
  shows "filter (\<lambda>p. p \<noteq> removePoly) groupTiles \<noteq> []"
    and "\<exists>c. splitConnectedComponents geom
            (Some (filter (\<lambda>p. p \<noteq> removePoly) groupTiles)) = Some [c]"
proof -
  from assms show ne: "filter (\<lambda>p. p \<noteq> removePoly) groupTiles \<noteq> []"
    by (auto simp: staysConnectedAfterRemoval_def split: if_splits)
  with assms obtain cs where
    cs: "splitConnectedComponents geom (Some (filter (\<lambda>p. p \<noteq> removePoly) groupTiles)) = Some cs"
    and "length cs = 1"
    by (auto simp: staysConnectedAfterRemoval_def split: if_splits)
  then obtain c where "cs = [c]" by (cases cs) auto
  with cs show "\<exists>c. splitConnectedComponents geom
      (Some (filter (\<lambda>p. p \<noteq> removePoly) groupTiles)) = Some [c]" by simp
qed

lemma findDonorTile_total: "\<exists>r. findDonorTile geom receiver donor ts = Some r"
proof (induction ts)
  case Nil
  then show ?case by simp
next
  case (Cons t ts)
  obtain b where "staysConnectedAfterRemoval geom donor t = Some b"
    using staysConnected_total by blast
  with Cons show ?case by auto
qed

lemma findDonorTile_Some:
  assumes "findDonorTile geom receiver donor ts = Some (Some t)"
  shows "t \<in> set ts \<and> list_ex (\<lambda>r. shareEdge (geom t) (geom r)) receiver
       \<and> staysConnectedAfterRemoval geom donor t = Some True"
  using assms
proof (induction ts)
  case Nil
  then show ?case by simp
next
  case (Cons u ts)
  show ?case
  proof (cases "findDonorTile geom receiver donor ts = Some (Some t)")
    case True
    with Cons.IH show ?thesis by simp
  next
    case False
    with Cons.prems show ?thesis
      by (auto split: if_splits option.splits)
  qed
qed

lemma findTransfer_total: "\<exists>r. findTransfer geom groups gi donors = Some r"
proof (induction donors)
  case Nil
  then show ?case by simp
next
  case (Cons gj donors)
  obtain r where "findDonorTile geom (groups ! gi) (groups ! gj) (groups ! gj) = Some r"
    using findDonorTile_total by blast
  with Cons show ?case by (cases r) auto
qed

lemma findTransfer_Some:
  assumes "findTransfer geom groups gi donors = Some (Some (gj, t))"
  shows "gj \<in> set donors
       \<and> findDonorTile geom (groups ! gi) (groups ! gj) (groups ! gj) = Some (Some t)"
  using assms
proof (induction donors)
  case Nil
  then show ?case by simp
next
  case (Cons d donors)
  show ?case
  proof (cases "findDonorTile geom (groups ! gi) (groups ! d) (groups ! d)")
    case None
    with Cons.prems show ?thesis by simp
  next
    case (Some r)
    with Cons show ?thesis by (cases r) auto
  qed
qed

lemma donorsOf_iff:
  "gj \<in> set (donorsOf k minTiles groups gi)
     \<longleftrightarrow> gj < k \<and> gj \<noteq> gi \<and> minTiles < int (length (groups ! gj))"
  by (auto simp: donorsOf_def)

lemma length_moveTile [simp]: "length (moveTile groups gi gj t) = length groups"
  by (simp add: moveTile_def)

lemma moveTile_nth:
  assumes "gi < length groups" "gj < length groups" "gi \<noteq> gj"
  shows "moveTile groups gi gj t ! gj = filter (\<lambda>p. p \<noteq> t) (groups ! gj)"
    and "moveTile groups gi gj t ! gi = groups ! gi @ [t]"
  using assms by (simp_all add: moveTile_def)

lemma exchangeFor_cases:
  assumes "exchangeFor geom k minTiles groups need gi = Some (groups', need')"
  shows "groups' = groups
       \<or> (\<exists>gj t. findTransfer geom groups gi (donorsOf k minTiles groups gi) = Some (Some (gj, t))
              \<and> groups' = moveTile groups gi gj t)"
  using assms by (auto simp: exchangeFor_def split: if_splits option.splits)

lemma exchangeFor_total: "\<exists>r. exchangeFor geom k minTiles groups need gi = Some r"
proof -
  obtain r where "findTransfer geom groups gi (donorsOf k minTiles groups gi) = Some r"
    using findTransfer_total by blast
  then show ?thesis
    by (cases r) (auto simp: exchangeFor_def)
qed

subsection \<open>Counting tiles\<close>

lemma mset_concat_update:
  assumes "i < length xs"
  shows "mset (concat (xs[i := y])) + mset (xs ! i) = mset (concat xs) + mset y"
proof -
  define pre post where "pre = concat (take i xs)" and "post = concat (drop (Suc i) xs)"
  have "xs[i := y] = take i xs @ y # drop (Suc i) xs"
    using assms by (rule upd_conv_take_nth_drop)
  then have "concat (xs[i := y]) = pre @ y @ post"
    by (simp add: pre_def post_def)
  then have 1: "mset (concat (xs[i := y])) = mset pre + mset y + mset post"
    by simp
  have "xs = take i xs @ xs ! i # drop (Suc i) xs"
    using assms by (rule id_take_nth_drop)
  then have "concat xs = concat (take i xs @ xs ! i # drop (Suc i) xs)"
    by (rule arg_cong)
  then have "concat xs = pre @ xs ! i @ post"
    by (simp add: pre_def post_def)
  then have 2: "mset (concat xs) = mset pre + mset (xs ! i) + mset post"
    by simp
  show ?thesis unfolding 1 2 by (simp add: ac_simps)
qed

lemma mset_concat_push:
  assumes "i < length xs"
  shows "mset (concat (xs[i := xs ! i @ [x]])) = add_mset x (mset (concat xs))"
  using mset_concat_update [OF assms, of "xs ! i @ [x]"] by simp

lemma mset_filter_neq:
  assumes "distinct xs" "t \<in> set xs"
  shows "add_mset t (mset (filter (\<lambda>p. p \<noteq> t) xs)) = mset xs"
proof -
  have aux: "filter (\<lambda>p. p \<noteq> t) ys = ys" if "t \<notin> set ys" for ys :: "'a list"
    using that by (induction ys) auto
  show ?thesis
    using assms by (induction xs) (auto simp del: mset_filter simp: aux)
qed

lemma nth_distinct_of_concat:
  assumes "distinct (concat xs)" "i < length xs"
  shows "distinct (xs ! i)"
  using assms by (simp add: distinct_concat_iff)

lemma moveTile_mset:
  assumes "distinct (concat groups)" "gi < length groups" "gj < length groups" "gi \<noteq> gj"
    and "t \<in> set (groups ! gj)"
  shows "mset (concat (moveTile groups gi gj t)) = mset (concat groups)"
proof -
  let ?F = "filter (\<lambda>p. p \<noteq> t) (groups ! gj)"
  let ?g1 = "groups[gj := ?F]"
  have 1: "mset (concat ?g1) + mset (groups ! gj) = mset (concat groups) + mset ?F"
    by (rule mset_concat_update [OF assms(3)])
  have "add_mset t (mset ?F) = mset (groups ! gj)"
    using nth_distinct_of_concat [OF assms(1,3)] assms(5) by (rule mset_filter_neq)
  then have "mset (concat ?g1) + add_mset t (mset ?F) = mset (concat groups) + mset ?F"
    using 1 by simp
  then have "add_mset t (mset (concat ?g1)) + mset ?F = mset (concat groups) + mset ?F"
    by simp
  then have "add_mset t (mset (concat ?g1)) = mset (concat groups)"
    by (simp only: add_right_cancel)
  moreover have "mset (concat (moveTile groups gi gj t)) = add_mset t (mset (concat ?g1))"
    unfolding moveTile_def using assms(2) by (intro mset_concat_push) simp
  ultimately show ?thesis by simp
qed

lemma exchangeFor_mset:
  assumes "exchangeFor geom k minTiles groups need gi = Some (groups', need')"
    and "k = length groups" "gi < k" "distinct (concat groups)"
  shows "mset (concat groups') = mset (concat groups)"
proof (cases "groups' = groups")
  case True
  then show ?thesis by simp
next
  case False
  with exchangeFor_cases [OF assms(1)] obtain gj t where
    tr: "findTransfer geom groups gi (donorsOf k minTiles groups gi) = Some (Some (gj, t))"
    and g': "groups' = moveTile groups gi gj t" by blast
  from findTransfer_Some [OF tr] have
    d: "gj \<in> set (donorsOf k minTiles groups gi)"
    and f: "findDonorTile geom (groups ! gi) (groups ! gj) (groups ! gj) = Some (Some t)"
    by simp_all
  from d have gj: "gj < k" "gj \<noteq> gi" by (simp_all add: donorsOf_iff)
  from findDonorTile_Some [OF f] have "t \<in> set (groups ! gj)" by simp
  with moveTile_mset [of groups gi gj t] assms(2,3,4) gj g' show ?thesis by auto
qed

lemma exchangeFor_length:
  assumes "exchangeFor geom k minTiles groups need gi = Some (groups', need')"
  shows "length groups' = length groups" "set need' \<subseteq> set need"
proof -
  from exchangeFor_cases [OF assms] show "length groups' = length groups" by auto
  from assms have "need' = need \<or> need' = remove1 gi need"
    by (auto simp: exchangeFor_def split: if_splits option.splits)
  then show "set need' \<subseteq> set need"
    using set_remove1_subset [of gi need] by auto
qed

lemma scanNeed_spec:
  assumes "k = length groups" "\<forall>i\<in>set need. i < k" "distinct (concat groups)"
  shows "\<exists>groups' need'. scanNeed geom k minTiles groups need p = Some (groups', need')
           \<and> length groups' = k \<and> (\<forall>i\<in>set need'. i < k)
           \<and> mset (concat groups') = mset (concat groups)"
  using assms
proof (induction geom k minTiles groups need p rule: scanNeed.induct)
  case (1 geom k minTiles groups need p)
  show ?case
  proof (cases "p < length need")
    case False
    then have "scanNeed geom k minTiles groups need p = Some (groups, need)"
      by (subst scanNeed.simps) simp
    with "1.prems" show ?thesis by simp
  next
    case True
    obtain g1 n1 where ex: "exchangeFor geom k minTiles groups need (need ! p) = Some (g1, n1)"
      using exchangeFor_total [of geom k minTiles groups need "need ! p"] by fastforce
    from True "1.prems"(2) have gi: "need ! p < k" by simp
    have l: "k = length g1" and n: "\<forall>i\<in>set n1. i < k"
      using exchangeFor_length [OF ex] "1.prems"(1,2) by auto
    have m: "mset (concat g1) = mset (concat groups)"
      using exchangeFor_mset [OF ex "1.prems"(1) gi "1.prems"(3)] .
    then have d: "distinct (concat g1)"
      using "1.prems"(3) by (metis mset_eq_imp_distinct_iff)
    have "scanNeed geom k minTiles groups need p = scanNeed geom k minTiles g1 n1 (p + 1)"
      using True ex by (subst scanNeed.simps) simp
    with "1.IH" [OF True ex refl l n d] m show ?thesis by simp
  qed
qed

lemma exchangeRounds_spec:
  assumes "k = length groups" "\<forall>i\<in>set need. i < k" "distinct (concat groups)"
  shows "\<exists>groups'. exchangeRounds geom k minTiles roundNo groups need = Some groups'
           \<and> length groups' = k \<and> mset (concat groups') = mset (concat groups)"
  using assms
proof (induction geom k minTiles roundNo groups need rule: exchangeRounds.induct)
  case (1 geom k minTiles roundNo groups need)
  show ?case
  proof (cases "roundNo < 20 \<and> length need \<noteq> 0")
    case False
    then have "exchangeRounds geom k minTiles roundNo groups need = Some groups"
      by (subst exchangeRounds.simps) auto
    with "1.prems" show ?thesis by simp
  next
    case True
    from scanNeed_spec [OF "1.prems", of geom minTiles 0] obtain g1 n1 where
      sc: "scanNeed geom k minTiles groups need 0 = Some (g1, n1)"
      and l: "length g1 = k" and n: "\<forall>i\<in>set n1. i < k"
      and m: "mset (concat g1) = mset (concat groups)" by blast
    from m have d: "distinct (concat g1)"
      using "1.prems"(3) by (metis mset_eq_imp_distinct_iff)
    have "exchangeRounds geom k minTiles roundNo groups need
        = exchangeRounds geom k minTiles (roundNo + 1) g1 n1"
      using True sc by (subst exchangeRounds.simps) simp
    with "1.IH" [OF True sc refl l [symmetric] n d] m show ?thesis by simp
  qed
qed


lemma scanNeed_total:
  "\<exists>groups' need'. scanNeed geom k minTiles groups need p = Some (groups', need')
     \<and> length groups' = length groups"
proof (induction geom k minTiles groups need p rule: scanNeed.induct)
  case (1 geom k minTiles groups need p)
  show ?case
  proof (cases "p < length need")
    case False
    then have "scanNeed geom k minTiles groups need p = Some (groups, need)"
      by (subst scanNeed.simps) simp
    then show ?thesis by simp
  next
    case True
    obtain g1 n1 where ex: "exchangeFor geom k minTiles groups need (need ! p) = Some (g1, n1)"
      using exchangeFor_total [of geom k minTiles groups need "need ! p"] by fastforce
    have "scanNeed geom k minTiles groups need p = scanNeed geom k minTiles g1 n1 (p + 1)"
      using True ex by (subst scanNeed.simps) simp
    with "1.IH" [OF True ex refl] exchangeFor_length(1) [OF ex] show ?thesis by simp
  qed
qed

lemma exchangeRounds_total:
  "\<exists>groups'. exchangeRounds geom k minTiles roundNo groups need = Some groups'
     \<and> length groups' = length groups"
proof (induction geom k minTiles roundNo groups need rule: exchangeRounds.induct)
  case (1 geom k minTiles roundNo groups need)
  show ?case
  proof (cases "roundNo < 20 \<and> length need \<noteq> 0")
    case False
    then have "exchangeRounds geom k minTiles roundNo groups need = Some groups"
      by (subst exchangeRounds.simps) auto
    then show ?thesis by simp
  next
    case True
    obtain g1 n1 where sc: "scanNeed geom k minTiles groups need 0 = Some (g1, n1)"
      and l: "length g1 = length groups"
      using scanNeed_total [of geom k minTiles groups need 0] by blast
    have "exchangeRounds geom k minTiles roundNo groups need
        = exchangeRounds geom k minTiles (roundNo + 1) g1 n1"
      using True sc by (subst exchangeRounds.simps) simp
    with "1.IH" [OF True sc refl] l show ?thesis by simp
  qed
qed

subsection \<open>The nearest index\<close>

lemma nearestFrom_Some:
  assumes "\<forall>j\<in>set js. j < length positions"
  shows "\<exists>b. nearestFrom c positions js (best, bd) = Some b \<and> (b = best \<or> b \<in> set js)"
  using assms
proof (induction js arbitrary: best bd)
  case Nil
  then show ?case by simp
next
  case (Cons j js)
  then have j: "j < length positions" and js: "\<forall>j\<in>set js. j < length positions"
    by simp_all
  show ?case
  proof (cases "closer (sqDist c (positions ! j)) bd")
    case True
    with Cons.IH [OF js, of j "sqDist c (positions ! j)"] j show ?thesis by auto
  next
    case False
    with Cons.IH [OF js, of best bd] j show ?thesis by auto
  qed
qed

lemma nearestIndex_Some:
  assumes "k \<le> length positions" "0 < k"
  shows "\<exists>b<k. nearestIndex c positions k = Some b"
proof -
  have "\<forall>j\<in>set [0..<k]. j < length positions" using assms(1) by simp
  from nearestFrom_Some [OF this, of c 0 None] assms(2) show ?thesis
    by (auto simp: nearestIndex_def)
qed

subsection \<open>The rebalancer\<close>

lemma absorbPool_spec:
  assumes "length groups = k" "k \<le> length groupCenters" "0 < k \<or> pool = []"
  shows "\<exists>groups'. absorbPool cen groupCenters k groups pool = Some groups'
           \<and> length groups' = k
           \<and> mset (concat groups') = mset (concat groups) + mset pool"
  using assms
proof (induction pool arbitrary: groups)
  case Nil
  then show ?case by simp
next
  case (Cons poly pool)
  then have k: "0 < k" by simp
  from nearestIndex_Some [OF Cons.prems(2) k, of "cen poly"] obtain b where
    b: "b < k" "nearestIndex (cen poly) groupCenters k = Some b" by blast
  let ?g = "groups[b := groups ! b @ [poly]]"
  have "length ?g = k" using Cons.prems(1) by simp
  from Cons.IH [OF this Cons.prems(2)] k obtain groups' where
    g': "absorbPool cen groupCenters k ?g pool = Some groups'" "length groups' = k"
    "mset (concat groups') = mset (concat ?g) + mset pool" by blast
  moreover have "mset (concat ?g) = add_mset poly (mset (concat groups))"
    using b(1) Cons.prems(1) by (intro mset_concat_push) simp
  ultimately show ?case using b Cons.prems(1) by simp
qed

lemma rebalanceBoundaries_total:
  assumes "0 < length groups \<or> pool = []"
  shows "\<exists>balanced. rebalanceBoundaries L geom groups pool idxAdj minTiles targetCounts
             = Some balanced \<and> length balanced = length groups"
proof -
  let ?k = "length groups"
  let ?gc = "map (\<lambda>g. polygonCentroid L (concat (map geom g))) groups"
  have "?k \<le> length ?gc" by simp
  from absorbPool_spec [OF refl this assms, of "\<lambda>p. polygonCentroid L (geom p)"]
  obtain g1 where g1: "absorbPool (\<lambda>p. polygonCentroid L (geom p)) ?gc ?k groups pool = Some g1"
    "length g1 = ?k" by blast
  from exchangeRounds_total [of geom ?k minTiles 0 g1
      "filter (\<lambda>i. int (length (g1 ! i)) < minTiles) [0..<?k]"] g1
  show ?thesis by (simp add: rebalanceBoundaries_def Let_def)
qed

lemma rebalanceBoundaries_length:
  assumes "rebalanceBoundaries L geom groups pool idxAdj minTiles targetCounts = Some balanced"
  shows "length balanced = length groups"
proof (cases "0 < length groups \<or> pool = []")
  case True
  from rebalanceBoundaries_total [OF True, of L geom idxAdj minTiles targetCounts] assms
  show ?thesis by auto
next
  case False
  then obtain poly rest where "pool = poly # rest" "groups = []"
    by (cases pool) auto
  with assms show ?thesis
    by (simp add: rebalanceBoundaries_def nearestIndex_def)
qed

lemma rebalanceBoundaries_mset:
  assumes "0 < length groups \<or> pool = []" "distinct (concat groups @ pool)"
  shows "\<exists>balanced. rebalanceBoundaries L geom groups pool idxAdj minTiles targetCounts
             = Some balanced \<and> length balanced = length groups
           \<and> mset (concat balanced) = mset (concat groups) + mset pool"
proof -
  let ?k = "length groups"
  let ?gc = "map (\<lambda>g. polygonCentroid L (concat (map geom g))) groups"
  have "?k \<le> length ?gc" by simp
  from absorbPool_spec [OF refl this assms(1), of "\<lambda>p. polygonCentroid L (geom p)"]
  obtain g1 where g1: "absorbPool (\<lambda>p. polygonCentroid L (geom p)) ?gc ?k groups pool = Some g1"
    "length g1 = ?k" "mset (concat g1) = mset (concat groups) + mset pool" by blast
  have "mset (concat g1) = mset (concat groups @ pool)" using g1(3) by simp
  then have d: "distinct (concat g1)"
    using assms(2) by (metis mset_eq_imp_distinct_iff)
  let ?need = "filter (\<lambda>i. int (length (g1 ! i)) < minTiles) [0..<?k]"
  have "\<forall>i\<in>set ?need. i < ?k" by simp
  from exchangeRounds_spec [OF g1(2) [symmetric] this d, of geom minTiles 0] g1
  show ?thesis by (simp add: rebalanceBoundaries_def Let_def)
qed

section \<open>Properties of the region growing\<close>

lemma linkEdge_length: "length (snd (linkEdge idx st e)) = length (snd st)"
  by (cases st; cases e) (auto split: option.splits)

lemma foldl_linkEdge_length: "length (snd (foldl (linkEdge idx) st es)) = length (snd st)"
  by (induction es arbitrary: st) (simp_all add: linkEdge_length)

lemma buildTile_length: "length (snd (buildTile st ip)) = Suc (length (snd st))"
  by (simp add: buildTile_def foldl_linkEdge_length)

lemma foldl_buildTile_length:
  "length (snd (foldl buildTile st ips)) = length (snd st) + length ips"
  by (induction ips arbitrary: st) (simp_all add: buildTile_length)

lemma length_buildAdjacency [simp]: "length (buildAdjacency polys) = length polys"
  by (simp add: buildAdjacency_def foldl_buildTile_length)

lemma fillQueues_spec:
  assumes "is = [] \<or> (0 < k \<and> k \<le> length positions)" "length queues = k"
  shows "\<exists>queues'. fillQueues cen positions k is queues = Some queues' \<and> length queues' = k
           \<and> \<Union> (set ` set queues') \<subseteq> \<Union> (set ` set queues) \<union> set is"
  using assms
proof (induction "is" arbitrary: queues)
  case Nil
  then show ?case by simp
next
  case (Cons i "is")
  then have k: "0 < k" "k \<le> length positions" by simp_all
  from nearestIndex_Some [OF k(2,1), of "cen i"] obtain b where
    b: "b < k" "nearestIndex (cen i) positions k = Some b" by blast
  let ?q = "queues[b := queues ! b @ [i]]"
  have "is = [] \<or> (0 < k \<and> k \<le> length positions)" "length ?q = k"
    using k Cons.prems(2) by simp_all
  from Cons.IH [OF this] obtain queues' where
    q': "fillQueues cen positions k is ?q = Some queues'" "length queues' = k"
    "\<Union> (set ` set queues') \<subseteq> \<Union> (set ` set ?q) \<union> set is" by blast
  have "\<Union> (set ` set ?q) \<subseteq> \<Union> (set ` set queues) \<union> {i}"
  proof
    fix x assume "x \<in> \<Union> (set ` set ?q)"
    then obtain q where q: "q \<in> set ?q" "x \<in> set q" by auto
    from q(1) have "q \<in> insert (queues ! b @ [i]) (set queues)"
      using set_update_subset_insert by fastforce
    then consider "q = queues ! b @ [i]" | "q \<in> set queues" by auto
    then show "x \<in> \<Union> (set ` set queues) \<union> {i}"
    proof cases
      case 1
      have "queues ! b \<in> set queues" using b(1) Cons.prems(2) by simp
      with 1 q(2) show ?thesis by auto
    next
      case 2
      with q(2) show ?thesis by auto
    qed
  qed
  with q' b Cons.prems(2) show ?case by auto
qed

lemma growInv_update:
  assumes "growInv N k assign" "g < k"
  shows "growInv N k (assign[idx := int g])"
proof -
  have "set (assign[idx := int g]) \<subseteq> insert (int g) (set assign)"
    by (rule set_update_subset_insert)
  with assms show ?thesis by (auto simp: growInv_def)
qed

lemma pushNeighbours_range:
  assumes "\<forall>i\<in>set front. i < length assign"
  shows "\<forall>i\<in>set (pushNeighbours assign front nbs). i < length assign"
  unfolding pushNeighbours_def
  by (rule foldl_invariant [where P = "\<lambda>f. \<forall>i\<in>set f. i < length assign"])
     (use assms in \<open>auto simp: setAdd_def isUnassigned_def\<close>)

lemma claimTile_spec:
  assumes "growInv N k assign" "g < k" "idx < N" "length idxAdj = N" "\<forall>i\<in>set front. i < N"
  shows "\<exists>assign' front' progress'.
           claimTile idxAdj g (assign, front, progress) idx = Some (assign', front', progress')
           \<and> growInv N k assign' \<and> (\<forall>i\<in>set front'. i < N)"
proof -
  have n: "length assign = N" using assms(1) by (simp add: growInv_def)
  show ?thesis
  proof (cases "isUnassigned assign idx")
    case True
    have "\<forall>i\<in>set (pushNeighbours (assign[idx := int g]) front (idxAdj ! idx)).
        i < length (assign[idx := int g])"
      by (rule pushNeighbours_range) (use assms(5) n in simp)
    with True assms growInv_update [OF assms(1,2), of idx] n show ?thesis by auto
  next
    case False
    have "\<forall>i\<in>set (pushNeighbours assign front (idxAdj ! idx)). i < length assign"
      by (rule pushNeighbours_range) (use assms(5) n in simp)
    with False assms n show ?thesis by auto
  qed
qed

lemma claimAll_spec:
  assumes "growInv N k assign" "g < k" "\<forall>i\<in>set frontier. i < N" "length idxAdj = N"
    "\<forall>i\<in>set front. i < N"
  shows "\<exists>assign' front' progress'.
           claimAll idxAdj g (assign, front, progress) frontier = Some (assign', front', progress')
           \<and> growInv N k assign' \<and> (\<forall>i\<in>set front'. i < N)"
  using assms
proof (induction frontier arbitrary: assign front progress)
  case Nil
  then show ?case by simp
next
  case (Cons idx frontier)
  then have idx: "idx < N" and fr: "\<forall>i\<in>set frontier. i < N" by simp_all
  from claimTile_spec [OF Cons.prems(1,2) idx Cons.prems(4,5), of progress]
  obtain a1 f1 p1 where c: "claimTile idxAdj g (assign, front, progress) idx = Some (a1, f1, p1)"
    "growInv N k a1" "\<forall>i\<in>set f1. i < N" by blast
  from Cons.IH [OF c(2) Cons.prems(2) fr Cons.prems(4) c(3), of p1] c(1) show ?case by simp
qed

lemma growGroup_spec:
  assumes "growInv N k assign" "g < k" "length fronts = k" "length idxAdj = N"
    "\<forall>f\<in>set fronts. \<forall>i\<in>set f. i < N"
  shows "\<exists>assign' fronts' progress'.
           growGroup idxAdj (assign, fronts, progress) g = Some (assign', fronts', progress')
           \<and> growInv N k assign' \<and> length fronts' = k \<and> (\<forall>f\<in>set fronts'. \<forall>i\<in>set f. i < N)"
proof -
  have "fronts ! g \<in> set fronts" using assms(2,3) by simp
  with assms(5) have fr: "\<forall>i\<in>set (fronts ! g). i < N" by blast
  have "\<forall>i\<in>set ([]::nat list). i < N" by simp
  from claimAll_spec [OF assms(1,2) fr assms(4) this, of progress]
  obtain a1 f1 p1 where c: "claimAll idxAdj g (assign, [], progress) (fronts ! g) = Some (a1, f1, p1)"
    "growInv N k a1" "\<forall>i\<in>set f1. i < N" by blast
  have "\<forall>f\<in>set (fronts[g := f1]). \<forall>i\<in>set f. i < N"
  proof
    fix f assume "f \<in> set (fronts[g := f1])"
    then have "f \<in> insert f1 (set fronts)"
      using set_update_subset_insert by fastforce
    with c(3) assms(5) show "\<forall>i\<in>set f. i < N" by auto
  qed
  with c assms(3) show ?thesis by simp
qed

lemma growRound_spec:
  assumes "growInv N k assign" "\<forall>g\<in>set gs. g < k" "length fronts = k" "length idxAdj = N"
    "\<forall>f\<in>set fronts. \<forall>i\<in>set f. i < N"
  shows "\<exists>assign' fronts' progress'.
           growRound idxAdj (assign, fronts, progress) gs = Some (assign', fronts', progress')
           \<and> growInv N k assign' \<and> length fronts' = k \<and> (\<forall>f\<in>set fronts'. \<forall>i\<in>set f. i < N)"
  using assms
proof (induction gs arbitrary: assign fronts progress)
  case Nil
  then show ?case by simp
next
  case (Cons g gs)
  then have g: "g < k" and gs: "\<forall>g\<in>set gs. g < k" by simp_all
  from growGroup_spec [OF Cons.prems(1) g Cons.prems(3,4,5), of progress]
  obtain a1 f1 p1 where c: "growGroup idxAdj (assign, fronts, progress) g = Some (a1, f1, p1)"
    "growInv N k a1" "length f1 = k" "\<forall>f\<in>set f1. \<forall>i\<in>set f. i < N" by blast
  from Cons.IH [OF c(2) gs c(3) Cons.prems(4) c(4), of p1] c(1) show ?case by simp
qed

lemma growLoop_spec:
  assumes "growInv N k assign" "length fronts = k" "length idxAdj = N"
    "\<forall>f\<in>set fronts. \<forall>i\<in>set f. i < N"
  shows "\<exists>assign'. growLoop idxAdj k assign fronts = Some assign' \<and> growInv N k assign'"
  using assms
proof (induction idxAdj k assign fronts rule: growLoop.induct)
  case (1 idxAdj k assign fronts)
  have "\<forall>g\<in>set [0..<k]. g < k" by simp
  from growRound_spec [OF "1.prems"(1) this "1.prems"(2,3,4), of False]
  obtain a1 f1 p1 where r: "growRound idxAdj (assign, fronts, False) [0..<k] = Some (a1, f1, p1)"
    "growInv N k a1" "length f1 = k" "\<forall>f\<in>set f1. \<forall>i\<in>set f. i < N" by blast
  show ?case
  proof (cases p1)
    case True
    have "growLoop idxAdj k assign fronts = growLoop idxAdj k a1 f1"
      using r(1) True by (subst growLoop.simps) simp
    with "1.IH" [OF r(1) refl refl True r(2,3) "1.prems"(3) r(4)] show ?thesis by simp
  next
    case False
    have "growLoop idxAdj k assign fronts = Some a1"
      using r(1) False by (subst growLoop.simps) simp
    with r(2) show ?thesis by simp
  qed
qed


lemma collectGroups_spec:
  assumes "growInv N k assign" "\<forall>i\<in>set is. i < N" "is = [] \<or> 0 < k" "length groups = k"
  shows "\<exists>groups'. collectGroups polys assign is groups = Some groups' \<and> length groups' = k
           \<and> mset (concat groups') = mset (concat groups) + mset (map (\<lambda>i. polys ! i) is)"
  using assms
proof (induction "is" arbitrary: groups)
  case Nil
  then show ?case by simp
next
  case (Cons i "is")
  then have k: "0 < k" and i: "i < N" and rest: "\<forall>i\<in>set is. i < N" by simp_all
  define g where "g = (if assign ! i \<noteq> - 1 then nat (assign ! i) else 0)"
  have "assign ! i \<in> set assign"
    using i Cons.prems(1) by (simp add: growInv_def)
  with Cons.prems(1) have "assign ! i = - 1 \<or> (0 \<le> assign ! i \<and> assign ! i < int k)"
    by (auto simp: growInv_def)
  with k have g: "g < k" by (auto simp: g_def)
  let ?g = "groups[g := groups ! g @ [polys ! i]]"
  have "is = [] \<or> 0 < k" "length ?g = k" using k Cons.prems(4) by simp_all
  from Cons.IH [OF Cons.prems(1) rest this] obtain groups' where
    g': "collectGroups polys assign is ?g = Some groups'" "length groups' = k"
    "mset (concat groups') = mset (concat ?g) + mset (map (\<lambda>i. polys ! i) is)" by blast
  have "mset (concat ?g) = add_mset (polys ! i) (mset (concat groups))"
    using g Cons.prems(4) by (intro mset_concat_push) simp
  moreover have "collectGroups polys assign (i # is) groups = collectGroups polys assign is ?g"
    using g Cons.prems(4) by (simp add: g_def)
  ultimately show ?case using g' by simp
qed

lemma mset_concat_head_rest:
  assumes "xs \<noteq> []"
  shows "mset (xs ! 0) + mset (concat (drop 1 xs)) = mset (concat xs)"
  using assms by (cases xs) simp_all

lemma mset_concat_eq:
  assumes "mset xs = mset ys"
  shows "mset (concat xs) = mset (concat ys)"
  using assms by (metis mset_concat mset_map sum_mset_sum_list)

lemma pruneGroups_spec:
  "\<exists>kept pool'. pruneGroups geom gs (connectedGroups, pool) = Some (kept, pool')
     \<and> length kept = length connectedGroups + length gs
     \<and> mset (concat kept) + mset pool'
         = mset (concat connectedGroups) + mset pool + mset (concat gs)
     \<and> (gs = [] \<longrightarrow> pool' = pool)"
proof (induction gs arbitrary: connectedGroups pool)
  case Nil
  then show ?case by simp
next
  case (Cons g gs)
  obtain comps where comps: "splitConnectedComponents geom (Some g) = Some comps"
    "mset (concat comps) = mset g"
    by (rule splitConnectedComponents_Some)
  show ?case
  proof (cases "length comps \<le> 1")
    case True
    from Cons.IH [of "connectedGroups @ [g]" pool] comps(1) True show ?thesis
      by (auto simp: ac_simps)
  next
    case False
    define sorted where "sorted = sort_key (\<lambda>c. - int (length c)) comps"
    have "mset sorted = mset comps" by (simp add: sorted_def)
    then have m: "mset (concat sorted) = mset g"
      using comps(2) mset_concat_eq by metis
    have "length sorted = length comps" by (simp add: sorted_def)
    then have "sorted \<noteq> []" using False by auto
    from mset_concat_head_rest [OF this] m
    have hr: "mset (sorted ! 0) + mset (concat (drop 1 sorted)) = mset g" by simp
    from Cons.IH [of "connectedGroups @ [sorted ! 0]" "pool @ concat (drop 1 sorted)"]
    obtain kept pool' where
      p: "pruneGroups geom gs (connectedGroups @ [sorted ! 0], pool @ concat (drop 1 sorted))
            = Some (kept, pool')"
      "length kept = length (connectedGroups @ [sorted ! 0]) + length gs"
      "mset (concat kept) + mset pool'
         = mset (concat (connectedGroups @ [sorted ! 0])) + mset (pool @ concat (drop 1 sorted))
           + mset (concat gs)" by blast
    have "pruneGroups geom (g # gs) (connectedGroups, pool) = Some (kept, pool')"
      using comps(1) False p(1) by (simp add: sorted_def)
    moreover have "mset (concat kept) + mset pool'
        = mset (concat connectedGroups) + mset pool + mset (concat (g # gs))"
      using p(3) hr by (simp add: ac_simps)
    ultimately show ?thesis using p(2) by simp
  qed
qed

lemma growConnectedGroups_spec:
  assumes "polys = [] \<or> (0 < k
      \<and> k \<le> length (generateCentersInPolygons L mapCenter k (map geom polys)))"
  shows "\<exists>groups pool assign idxAdj.
           growConnectedGroups L mapCenter geom polys k minTiles = Some (groups, pool, assign, idxAdj)
           \<and> length groups = k \<and> mset (concat groups) + mset pool = mset polys"
proof -
  let ?N = "length polys"
  let ?adj = "buildAdjacency (map geom polys)"
  let ?pos = "map Some (generateCentersInPolygons L mapCenter k (map geom polys))"
  let ?cen = "\<lambda>i. polygonCentroid L (geom (polys ! i))"
  have "[0..<?N] = [] \<or> (0 < k \<and> k \<le> length ?pos)" using assms by auto
  moreover have "length (replicate k ([]::nat list)) = k" by simp
  ultimately obtain queues where
    q: "fillQueues ?cen ?pos k [0..<?N] (replicate k []) = Some queues" "length queues = k"
    "\<Union> (set ` set queues) \<subseteq> \<Union> (set ` set (replicate k ([]::nat list))) \<union> set [0..<?N]"
    using fillQueues_spec [of "[0..<?N]" k ?pos "replicate k []" ?cen] by blast
  let ?fronts = "map (\<lambda>q. foldl setAdd [] q) queues"
  have setAdd: "set (foldl setAdd acc q) = set acc \<union> set q" for acc q :: "nat list"
    by (induction q arbitrary: acc) (auto simp: setAdd_def)
  have fr: "\<forall>f\<in>set ?fronts. \<forall>i\<in>set f. i < ?N"
    using q(3) by (auto simp: setAdd)
  have inv: "growInv ?N k (replicate ?N (- 1))"
    by (simp add: growInv_def)
  from growLoop_spec [OF inv _ _ fr, of ?adj] q(2) obtain assign where
    a: "growLoop ?adj k (replicate ?N (- 1)) ?fronts = Some assign" "growInv ?N k assign"
    by auto
  have "\<forall>i\<in>set [0..<?N]. i < ?N" by simp
  moreover have "[0..<?N] = [] \<or> 0 < k" using assms by auto
  ultimately obtain groups where
    g: "collectGroups polys assign [0..<?N] (replicate k []) = Some groups" "length groups = k"
    "mset (concat groups) = mset (concat (replicate k ([]::tile list)))
        + mset (map (\<lambda>i. polys ! i) [0..<?N])"
    using collectGroups_spec [OF a(2), of "[0..<?N]" "replicate k []" polys] by auto
  have "concat (replicate k ([]::tile list)) = []" by (induction k) simp_all
  moreover have "map (\<lambda>i. polys ! i) [0..<?N] = polys" by (rule map_nth)
  ultimately have gm: "mset (concat groups) = mset polys" using g(3) by simp
  from pruneGroups_spec [of geom groups "[]" "[]"] obtain kept pool where
    p: "pruneGroups geom groups ([], []) = Some (kept, pool)" "length kept = length groups"
    "mset (concat kept) + mset pool = mset (concat groups)" by auto
  have "growConnectedGroups L mapCenter geom polys k minTiles = Some (kept, pool, assign, ?adj)"
    using q(1) a(1) g(1) p(1) by (simp add: growConnectedGroups_def Let_def)
  with p(2,3) g(2) gm show ?thesis by simp
qed

lemma growConnectedGroups_shape:
  assumes "growConnectedGroups L mapCenter geom polys k minTiles = Some (groups, pool, assign, idxAdj)"
  shows "length groups = k \<and> (pool \<noteq> [] \<longrightarrow> 0 < k)"
proof -
  from assms obtain assign' collected where
    c: "collectGroups polys assign' [0..<length polys] (replicate k []) = Some collected"
    and p: "pruneGroups geom collected ([], []) = Some (groups, pool)"
    by (auto simp: growConnectedGroups_def Let_def split: option.splits)
  have len: "length collected' = length gs0"
    if "collectGroups polys assign' is gs0 = Some collected'" for "is" gs0 collected'
    using that by (induction "is" arbitrary: gs0) (auto split: if_splits)
  from len [OF c] have l: "length collected = k" by simp
  from pruneGroups_spec [of geom collected "[]" "[]"] p
  have "length groups = length collected" "collected = [] \<longrightarrow> pool = []" by auto
  with l show ?thesis by auto
qed

lemma concat_disjoint_nth:
  assumes "distinct (concat xs)" "i < j" "j < length xs"
  shows "set (xs ! i) \<inter> set (xs ! j) = {}"
  using assms
proof (induction xs arbitrary: i j)
  case Nil
  then show ?case by simp
next
  case (Cons x xs)
  obtain j' where j': "j = Suc j'" using Cons.prems(2) by (cases j) auto
  show ?case
  proof (cases i)
    case 0
    have "xs ! j' \<in> set xs" using Cons.prems(3) j' by simp
    with Cons.prems(1) 0 j' show ?thesis by auto
  next
    case (Suc i')
    with Cons.IH [of i' j'] Cons.prems j' show ?thesis by simp
  qed
qed

lemma concat_unique_group:
  assumes "distinct (concat xs)" "t \<in> set (concat xs)"
  shows "\<exists>!i. i < length xs \<and> t \<in> set (xs ! i)"
proof -
  from assms(2) obtain ys where "ys \<in> set xs" "t \<in> set ys" by auto
  then obtain i where i: "i < length xs" "t \<in> set (xs ! i)"
    by (metis in_set_conv_nth)
  have "j = i" if "j < length xs" "t \<in> set (xs ! j)" for j
  proof (rule ccontr)
    assume "j \<noteq> i"
    then consider "i < j" | "j < i" by linarith
    then show False
      using concat_disjoint_nth [OF assms(1), of i j] concat_disjoint_nth [OF assms(1), of j i]
        i that by cases auto
  qed
  with i show ?thesis by blast
qed

text \<open>
  When the tile list is not empty and the seeder does not deliver \<open>k > 0\<close> centers, the grower
  throws: at \<open>queues[best].push(i)\<close> for \<open>k = 0\<close>, at \<open>const [px, py] = centerPos[j]\<close>
  otherwise.
\<close>

lemma nearestFrom_None:
  assumes "\<exists>j\<in>set js. \<not> j < length positions"
  shows "nearestFrom c positions js st = None"
  using assms
proof (induction js arbitrary: st)
  case Nil
  then show ?case by simp
next
  case (Cons j js)
  obtain best bd where st: "st = (best, bd)" by (cases st) auto
  show ?case
  proof (cases "j < length positions")
    case False
    with st show ?thesis by simp
  next
    case True
    with Cons.prems have "\<exists>j\<in>set js. \<not> j < length positions" by auto
    with Cons.IH st True show ?thesis by simp
  qed
qed

lemma growConnectedGroups_throws:
  assumes "polys \<noteq> []"
    and "\<not> (0 < k \<and> k \<le> length (generateCentersInPolygons L mapCenter k (map geom polys)))"
  shows "growConnectedGroups L mapCenter geom polys k minTiles = None"
proof -
  let ?pos = "map Some (generateCentersInPolygons L mapCenter k (map geom polys))"
  let ?cen = "\<lambda>i. polygonCentroid L (geom (polys ! i))"
  from assms(1) have up: "[0..<length polys] = 0 # [1..<length polys]"
    by (simp add: upt_rec)
  have "fillQueues ?cen ?pos k [0..<length polys] (replicate k []) = None"
  proof (cases "k = 0")
    case True
    then show ?thesis unfolding up by (simp add: nearestIndex_def)
  next
    case False
    with assms(2) have "length ?pos < k" by simp
    then have "\<exists>j\<in>set [0..<k]. \<not> j < length ?pos" by auto
    then have "nearestIndex (?cen 0) ?pos k = None"
      unfolding nearestIndex_def by (rule nearestFrom_None)
    then show ?thesis unfolding up by simp
  qed
  then show ?thesis by (simp add: growConnectedGroups_def Let_def)
qed

lemma assignCountriesWithinRegion_throws:
  assumes "polys \<noteq> []"
    and "\<not> (0 < k \<and> k \<le> length (generateCentersInPolygons L mapCenter k (map geom polys)))"
  shows "assignCountriesWithinRegion L mapCenter geom polys k minTiles = None"
  using growConnectedGroups_throws [OF assms]
  by (simp add: assignCountriesWithinRegion_def)

section \<open>Properties of the count repair\<close>

lemma sliceOf_refl [simp]: "sliceOf g g"
  unfolding sliceOf_def by (rule exI [of _ "length g"], rule exI [of _ 0]) simp

lemma sliceOf_take: "sliceOf g g0 \<Longrightarrow> sliceOf (take h g) g0"
  unfolding sliceOf_def by (metis take_take)

lemma sliceOf_drop: "sliceOf g g0 \<Longrightarrow> sliceOf (drop h g) g0"
  unfolding sliceOf_def by (metis drop_take drop_drop)

lemma largestIdx_fold:
  fixes vg :: "'a list list"
  defines "f \<equiv> (\<lambda>best i. if length (vg ! i) > length (vg ! best) then i else best)"
  shows "foldl f 0 [1..<Suc m] \<le> m
       \<and> (\<forall>j\<le>m. length (vg ! j) \<le> length (vg ! foldl f 0 [1..<Suc m]))
       \<and> (\<forall>j<foldl f 0 [1..<Suc m]. length (vg ! j) < length (vg ! foldl f 0 [1..<Suc m]))"
proof (induction m)
  case 0
  then show ?case by simp
next
  case (Suc m)
  let ?b = "foldl f 0 [1..<Suc m]"
  have step: "foldl f 0 [1..<Suc (Suc m)] = f ?b (Suc m)" by simp
  show ?case
  proof (cases "length (vg ! Suc m) > length (vg ! ?b)")
    case True
    then have "f ?b (Suc m) = Suc m" by (simp add: f_def)
    with Suc True show ?thesis
      unfolding step by (auto simp: le_Suc_eq less_Suc_eq_le)
  next
    case False
    then have "f ?b (Suc m) = ?b" by (simp add: f_def)
    with Suc False show ?thesis
      unfolding step by (auto simp: le_Suc_eq)
  qed
qed

lemma largestIdx_Some:
  assumes "vg \<noteq> []"
  shows "\<exists>li. largestIdx vg = Some li \<and> li < length vg
           \<and> (\<forall>j<length vg. length (vg ! j) \<le> length (vg ! li))
           \<and> (\<forall>j<li. length (vg ! j) < length (vg ! li))"
proof -
  obtain m where m: "length vg = Suc m" using assms by (cases vg) auto
  from largestIdx_fold [of vg m] m show ?thesis
    by (auto simp: largestIdx_def less_Suc_eq_le)
qed


lemma repairCount_spec:
  assumes "vg \<noteq> []"
  shows "\<exists>r. repairCount minTiles numGroups vg = Some r
           \<and> (numGroups \<le> length r \<or> (\<forall>g\<in>set r. int (length g) \<le> 2 * minTiles))
           \<and> length r \<le> max numGroups (length vg)
           \<and> mset (concat r) = mset (concat vg)
           \<and> (\<forall>g\<in>set r. \<exists>g0\<in>set vg. sliceOf g g0)"
  using assms
proof (induction minTiles numGroups vg rule: repairCount.induct)
  case (1 minTiles numGroups vg)
  have self: "\<forall>g\<in>set vg. \<exists>g0\<in>set vg. sliceOf g g0"
    by (meson sliceOf_refl)
  from largestIdx_Some [OF "1.prems"] obtain li where
    li: "largestIdx vg = Some li" "li < length vg"
    "\<forall>j<length vg. length (vg ! j) \<le> length (vg ! li)" by blast
  show ?case
  proof (cases "length vg < numGroups")
    case False
    then have "repairCount minTiles numGroups vg = Some vg"
      by (subst repairCount.simps) simp
    with False self show ?thesis by auto
  next
    case True
    show ?thesis
    proof (cases "int (length (vg ! li)) \<le> minTiles * 2")
      case small: True
      have "repairCount minTiles numGroups vg = Some vg"
        using True li(1) small by (subst repairCount.simps) simp
      moreover have "\<forall>g\<in>set vg. int (length g) \<le> 2 * minTiles"
      proof
        fix g assume "g \<in> set vg"
        then obtain j where "j < length vg" "g = vg ! j" by (metis in_set_conv_nth)
        with li(3) have "length g \<le> length (vg ! li)" by simp
        with small show "int (length g) \<le> 2 * minTiles" by simp
      qed
      ultimately show ?thesis using self by auto
    next
      case big: False
      let ?L = "vg ! li"
      let ?h = "length ?L div 2"
      let ?vg' = "vg[li := drop ?h ?L] @ [take ?h ?L]"
      have unf: "repairCount minTiles numGroups vg = repairCount minTiles numGroups ?vg'"
        using True li(1) big by (subst repairCount.simps) simp
      have "?vg' \<noteq> []" by simp
      from "1.IH" [OF True li(1) big this] obtain r where
        r: "repairCount minTiles numGroups ?vg' = Some r"
        "numGroups \<le> length r \<or> (\<forall>g\<in>set r. int (length g) \<le> 2 * minTiles)"
        "length r \<le> max numGroups (length ?vg')"
        "mset (concat r) = mset (concat ?vg')"
        "\<forall>g\<in>set r. \<exists>g0\<in>set ?vg'. sliceOf g g0" by blast
      have "mset (concat (vg[li := drop ?h ?L])) + mset ?L = mset (concat vg) + mset (drop ?h ?L)"
        by (rule mset_concat_update [OF li(2)])
      moreover have "mset ?L = mset (take ?h ?L) + mset (drop ?h ?L)"
        by (metis append_take_drop_id mset_append)
      ultimately have "mset (concat (vg[li := drop ?h ?L])) + mset (take ?h ?L) + mset (drop ?h ?L)
          = mset (concat vg) + mset (drop ?h ?L)"
        by (simp add: ac_simps)
      then have "mset (concat (vg[li := drop ?h ?L])) + mset (take ?h ?L) = mset (concat vg)"
        by (simp only: add_right_cancel)
      then have m: "mset (concat ?vg') = mset (concat vg)" by simp
      have L: "?L \<in> set vg" using li(2) by simp
      have sl: "\<exists>g0\<in>set vg. sliceOf g g0" if "g \<in> set ?vg'" for g
      proof -
        from that have "g = take ?h ?L \<or> g \<in> set (vg[li := drop ?h ?L])" by auto
        then consider "g = take ?h ?L" | "g = drop ?h ?L" | "g \<in> set vg"
          using set_update_subset_insert [of vg li "drop ?h ?L"] by auto
        then show ?thesis
        proof cases
          case 1
          with L sliceOf_take [OF sliceOf_refl, of ?h ?L] show ?thesis by auto
        next
          case 2
          with L sliceOf_drop [OF sliceOf_refl, of ?h ?L] show ?thesis by auto
        next
          case 3
          then show ?thesis by (meson sliceOf_refl)
        qed
      qed
      have "\<forall>g\<in>set r. \<exists>g0\<in>set vg. sliceOf g g0"
      proof
        fix g assume "g \<in> set r"
        with r(5) obtain g1 where g1: "g1 \<in> set ?vg'" "sliceOf g g1" by blast
        from sl [OF g1(1)] obtain g0 where g0: "g0 \<in> set vg" "sliceOf g1 g0" by blast
        from g1(2) obtain a b where "g = take a (drop b g1)" by (auto simp: sliceOf_def)
        with sliceOf_take [OF sliceOf_drop [OF g0(2), of b], of a] g0(1)
        show "\<exists>g0\<in>set vg. sliceOf g g0" by auto
      qed
      moreover have "length r \<le> max numGroups (length vg)" using r(3) True by simp
      moreover have "mset (concat r) = mset (concat vg)" by (simp only: r(4) m)
      moreover have "repairCount minTiles numGroups vg = Some r" by (simp only: unf r(1))
      ultimately show ?thesis using r(2) by blast
    qed
  qed
qed

lemma repairCount_sizes:
  assumes "repairCount minTiles numGroups vg = Some r"
  shows "length vg \<le> length r
       \<and> (\<forall>j<length vg. min (int (length (vg ! j))) minTiles \<le> int (length (r ! j)))
       \<and> (\<forall>j<length r. length vg \<le> j \<longrightarrow> minTiles \<le> int (length (r ! j)))"
  using assms
proof (induction minTiles numGroups vg rule: repairCount.induct)
  case (1 minTiles numGroups vg)
  show ?case
  proof (cases "length vg < numGroups")
    case False
    with "1.prems" have "r = vg" by (subst (asm) repairCount.simps) simp
    then show ?thesis by simp
  next
    case True
    with "1.prems" obtain li where li: "largestIdx vg = Some li"
      by (subst (asm) repairCount.simps) (auto split: option.splits)
    then have ne: "vg \<noteq> []" by (auto simp: largestIdx_def split: if_splits)
    from largestIdx_Some [OF ne] li have lt: "li < length vg" by auto
    show ?thesis
    proof (cases "int (length (vg ! li)) \<le> minTiles * 2")
      case small: True
      with "1.prems" True li have "r = vg" by (subst (asm) repairCount.simps) simp
      then show ?thesis by simp
    next
      case big: False
      let ?L = "vg ! li"
      let ?h = "length ?L div 2"
      let ?vg' = "vg[li := drop ?h ?L] @ [take ?h ?L]"
      have unf: "repairCount minTiles numGroups vg = repairCount minTiles numGroups ?vg'"
        using True li big by (subst repairCount.simps) simp
      with "1.prems" have "repairCount minTiles numGroups ?vg' = Some r" by simp
      from "1.IH" [OF True li big this] have
        ih1: "length ?vg' \<le> length r"
        and ih2: "\<forall>j<length ?vg'. min (int (length (?vg' ! j))) minTiles \<le> int (length (r ! j))"
        and ih3: "\<forall>j<length r. length ?vg' \<le> j \<longrightarrow> minTiles \<le> int (length (r ! j))"
        by blast+
      have hb: "minTiles \<le> int ?h" using big by linarith
      have db: "minTiles \<le> int (length ?L - ?h)" using big by linarith
      have a: "length vg \<le> length r" using ih1 by simp
      have b: "min (int (length (vg ! j))) minTiles \<le> int (length (r ! j))" if "j < length vg" for j
      proof (cases "j = li")
        case True
        from ih2 that have "min (int (length (?vg' ! j))) minTiles \<le> int (length (r ! j))" by simp
        moreover have "?vg' ! j = drop ?h ?L" using True lt by (simp add: nth_append)
        ultimately show ?thesis using db by simp
      next
        case False
        from ih2 that have "min (int (length (?vg' ! j))) minTiles \<le> int (length (r ! j))" by simp
        moreover have "?vg' ! j = vg ! j" using False that by (simp add: nth_append)
        ultimately show ?thesis by simp
      qed
      have c: "minTiles \<le> int (length (r ! j))" if "j < length r" "length vg \<le> j" for j
      proof (cases "j = length vg")
        case True
        from ih2 have "min (int (length (?vg' ! j))) minTiles \<le> int (length (r ! j))"
          using True by simp
        moreover have "?vg' ! j = take ?h ?L" using True by (simp add: nth_append)
        ultimately show ?thesis using hb by simp
      next
        case False
        with that ih3 show ?thesis by simp
      qed
      from a b c show ?thesis by blast
    qed
  qed
qed

lemma repairCount_stop:
  assumes "repairCount minTiles numGroups vg = Some r"
  shows "numGroups \<le> length r \<or> (\<forall>g\<in>set r. int (length g) \<le> 2 * minTiles)"
proof (cases "vg = []")
  case False
  from repairCount_spec [OF False, of minTiles numGroups] assms show ?thesis by auto
next
  case True
  with assms show ?thesis
    by (subst (asm) repairCount.simps) (auto simp: largestIdx_def split: if_splits)
qed

lemma forceAssignWithConnectivity_stop:
  assumes "forceAssignWithConnectivity L mapCenter geom polygons numGroups minTiles = Some r"
  shows "numGroups \<le> length r \<or> (\<forall>g\<in>set r. int (length g) \<le> 2 * minTiles)"
proof -
  from assms obtain vg where "repairCount minTiles numGroups vg = Some r"
    by (auto simp: forceAssignWithConnectivity_def Let_def split: option.splits)
  then show ?thesis by (rule repairCount_stop)
qed

section \<open>Properties of the largest component\<close>

subsection \<open>The adjacency of \<open>largestConnectedComponent\<close>\<close>








subsection \<open>The loop of the largest component, through the list of components\<close>





subsection \<open>Every traversal yields a connected component\<close>

lemma closed_rtrancl:
  assumes "R `` S \<subseteq> S" "a \<in> S" "(a, b) \<in> R\<^sup>*"
  shows "b \<in> S"
  using assms(3,1,2) by (induction rule: rtrancl_induct) auto

lemma bfs_component:
  assumes wf: "adjWf n adj"
    and closed: "adjRel adj `` visitedSet visited \<subseteq> visitedSet visited"
    and i: "i \<notin> visitedSet visited" and below: "{..<i} \<subseteq> visitedSet visited"
    and b: "bfs (\<lambda>u. u) adj (markVisited visited i) [i] [] = Some (visited', c)"
  shows "isComponent adj c \<and> hd c = i \<and> visitedSet visited' = visitedSet visited \<union> set c
       \<and> set c \<inter> visitedSet visited = {} \<and> adjRel adj `` visitedSet visited' \<subseteq> visitedSet visited'"
proof -
  let ?R = "adjRel adj"
  let ?V = "visitedSet visited"
  from bfs_spec [OF b] obtain new where new:
    "c = [i] @ new" "distinct new" "set new \<inter> visitedSet (markVisited visited i) = {}"
    "visitedSet visited' = visitedSet (markVisited visited i) \<union> set new"
    "\<forall>u\<in>set ([i] @ new). u < length adj \<and> set (adj ! u) \<subseteq> visitedSet visited'"
    "set new \<subseteq> ?R\<^sup>+ `` set [i]" by auto
  have c: "c = i # new" and hd: "hd c = i" using new(1) by simp_all
  have d: "distinct c" using new(2,3) c by auto
  have V': "visitedSet visited' = ?V \<union> set c" using new(4) c by auto
  have disj: "set c \<inter> ?V = {}" using new(3) i c by auto
  have sub: "set c \<subseteq> ?R\<^sup>* `` {i}"
  proof
    fix u assume "u \<in> set c"
    then consider "u = i" | "u \<in> set new" using c by auto
    then show "u \<in> ?R\<^sup>* `` {i}"
    proof cases
      case 1
      then show ?thesis by simp
    next
      case 2
      with new(6) have "(i, u) \<in> ?R\<^sup>+" by auto
      then show ?thesis by (simp add: trancl_into_rtrancl)
    qed
  qed
  have sym: "sym ?R" using wf by (simp add: adjWf_def)
  have cl: "?R `` set c \<subseteq> set c"
  proof
    fix v assume "v \<in> ?R `` set c"
    then obtain u where u: "u \<in> set c" "(u, v) \<in> ?R" by auto
    from u(2) have "u < length adj" "v \<in> set (adj ! u)" by (simp_all add: adjRel_def)
    with new(5) u(1) c have "v \<in> visitedSet visited'" by auto
    with V' have "v \<in> ?V \<or> v \<in> set c" by auto
    moreover have "v \<notin> ?V"
    proof
      assume v: "v \<in> ?V"
      from sym u(2) have "(v, u) \<in> ?R" by (rule symD)
      with v closed have "u \<in> ?V" by auto
      with disj u(1) show False by auto
    qed
    ultimately show "v \<in> set c" by simp
  qed
  have "?R\<^sup>* `` {i} \<subseteq> set c"
  proof
    fix v assume "v \<in> ?R\<^sup>* `` {i}"
    then have "(i, v) \<in> ?R\<^sup>*" by simp
    moreover have "i \<in> set c" using c by simp
    ultimately show "v \<in> set c" using cl closed_rtrancl by metis
  qed
  with sub have eq: "set c = ?R\<^sup>* `` {hd c}" using hd by auto
  have least: "\<forall>u\<in>set c. hd c \<le> u"
  proof
    fix u assume "u \<in> set c"
    with disj have "u \<notin> ?V" by auto
    with below have "\<not> u < i" by auto
    with hd show "hd c \<le> u" by simp
  qed
  have "?R `` visitedSet visited' \<subseteq> visitedSet visited'"
    using closed cl V' by auto
  with c d eq least hd V' disj show ?thesis by (simp add: isComponent_def)
qed

lemma componentsFrom_components:
  assumes "adjWf n adj" "i0 \<le> n"
    and "componentsFrom (\<lambda>u. u) adj [i0..<n] visited cs = Some cs'"
    and "compInv adj i0 (visitedSet visited) cs"
  shows "\<exists>V. compInv adj n V cs'"
  using assms
proof (induction "n - i0" arbitrary: i0 visited cs)
  case 0
  then have "i0 = n" by simp
  with 0 show ?case by auto
next
  case (Suc k)
  then have lt: "i0 < n" by simp
  then have up: "[i0..<n] = i0 # [Suc i0..<n]" by (simp add: upt_rec)
  have k: "k = n - Suc i0" "Suc i0 \<le> n" using Suc.hyps(2) lt by simp_all
  let ?V = "visitedSet visited"
  from Suc.prems(4) have inv: "?V = set (concat cs)" "{..<i0} \<subseteq> ?V" "adjRel adj `` ?V \<subseteq> ?V"
    "distinct (concat cs)" "\<forall>c\<in>set cs. isComponent adj c \<and> hd c < i0"
    "sorted_wrt (<) (map hd cs)"
    unfolding compInv_def by blast+
  show ?case
  proof (cases "isVisited visited i0")
    case True
    then have "i0 \<in> ?V" by (simp add: visitedSet_def)
    then have "{..<Suc i0} \<subseteq> ?V" using inv(2) by (auto simp: less_Suc_eq)
    moreover have "\<forall>c\<in>set cs. isComponent adj c \<and> hd c < Suc i0"
      using inv(5) by (auto simp: less_Suc_eq)
    ultimately have "compInv adj (Suc i0) ?V cs"
      unfolding compInv_def using inv(1,3,4,6) by blast
    moreover have "componentsFrom (\<lambda>u. u) adj [Suc i0..<n] visited cs = Some cs'"
      using Suc.prems(3) True up by simp
    ultimately show ?thesis
      using Suc.hyps(1) [OF k(1) Suc.prems(1) k(2)] by blast
  next
    case False
    then have i: "i0 \<notin> ?V" by (simp add: visitedSet_def)
    from Suc.prems(3) False up obtain v1 c1 where
      b: "bfs (\<lambda>u. u) adj (markVisited visited i0) [i0] [] = Some (v1, c1)"
      and rest: "componentsFrom (\<lambda>u. u) adj [Suc i0..<n] v1 (cs @ [c1]) = Some cs'"
      by (auto split: option.splits)
    from bfs_component [OF Suc.prems(1) inv(3) i inv(2) b] have c1:
      "isComponent adj c1" "hd c1 = i0" "visitedSet v1 = ?V \<union> set c1"
      "set c1 \<inter> ?V = {}" "adjRel adj `` visitedSet v1 \<subseteq> visitedSet v1" by blast+
    have "i0 \<in> set c1" using c1(1,2) by (auto simp: isComponent_def)
    then have below: "{..<Suc i0} \<subseteq> visitedSet v1"
      using inv(2) c1(3) by (auto simp: less_Suc_eq)
    have dist: "distinct (concat (cs @ [c1]))"
      using inv(1,4) c1(1,4) by (auto simp: isComponent_def)
    have comps: "\<forall>c\<in>set (cs @ [c1]). isComponent adj c \<and> hd c < Suc i0"
      using inv(5) c1(1,2) by (auto simp: less_Suc_eq)
    have sorted: "sorted_wrt (<) (map hd (cs @ [c1]))"
      using inv(5,6) c1(2) by (auto simp: sorted_wrt_append)
    have "visitedSet v1 = set (concat (cs @ [c1]))"
      using inv(1) c1(3) by simp
    then have "compInv adj (Suc i0) (visitedSet v1) (cs @ [c1])"
      unfolding compInv_def using c1(5) below dist comps sorted by blast
    with Suc.hyps(1) [OF k(1) Suc.prems(1) k(2) rest] show ?thesis by blast
  qed
qed

subsection \<open>The largest component\<close>






section \<open>The adjacency of the largest component is the shared-edge graph\<close>

subsection \<open>The lists of the edge map\<close>



lemma keys_omPush [simp]: "fst ` set (omPush m k i) = fst ` set m"
  by (force simp: omPush_def split: if_splits)









subsection \<open>The pairing loop\<close>








subsection \<open>The graph on tile indices\<close>







section \<open>A single component is a connected group\<close>

lemma sccAdjacency_adjWf: "adjWf (length polys) (sccAdjacency polys)"
  using sccAdjacency_wf [of polys] by (simp add: adjWf_def adjInRange_iff)

lemma single_component_connected:
  assumes "splitConnectedComponents geom (Some polys) = Some [c]"
  shows "\<forall>u<length polys. \<forall>v<length polys.
           (u, v) \<in> (adjRel (sccAdjacency (map geom polys)))\<^sup>*"
proof -
  let ?adj = "sccAdjacency (map geom polys)"
  let ?n = "length polys"
  let ?R = "adjRel ?adj"
  have wf: "adjWf ?n ?adj" using sccAdjacency_adjWf [of "map geom polys"] by simp
  then have len: "length ?adj = ?n" and sym: "sym ?R" by (simp_all add: adjWf_def)
  from assms obtain ci where
    ci: "componentsFrom (\<lambda>u. u) ?adj [0..<?n] (replicate ?n False) [] = Some ci"
    and c: "map (map (\<lambda>u. polys ! u)) ci = [c]"
    by (auto simp: splitConnectedComponents_idx)
  from c obtain c0 where c0: "ci = [c0]" by (cases ci) auto
  from componentsFrom_partition [OF ci] len c0 have all: "set c0 = {..<?n}" by auto
  have "compInv ?adj 0 (visitedSet (replicate ?n False)) []"
    by (simp add: compInv_def)
  from componentsFrom_components [OF wf _ ci this] obtain V where "compInv ?adj ?n V ci"
    by auto
  with c0 have "isComponent ?adj c0" by (simp add: compInv_def)
  then have reach: "set c0 = ?R\<^sup>* `` {hd c0}" by (simp add: isComponent_def)
  have symr: "sym (?R\<^sup>*)" using sym by (rule sym_rtrancl)
  show ?thesis
  proof (intro allI impI)
    fix u v assume "u < ?n" "v < ?n"
    with all reach have "(hd c0, u) \<in> ?R\<^sup>*" "(hd c0, v) \<in> ?R\<^sup>*" by auto
    with symr show "(u, v) \<in> ?R\<^sup>*" by (meson rtrancl_trans symD)
  qed
qed

section \<open>The claims\<close>

text \<open>
  C1. For every list of distinct tiles given to the grower followed by the rebalancer with the
  same parameters, if the list is empty or the seeder delivers the \<open>k > 0\<close> centers asked for,
  the pipeline returns, and the returned groups hold every input tile exactly once: their
  concatenation is a permutation of the input without repetition, so every input tile is in
  exactly one group.
\<close>

theorem pipeline_partitions_tiles:
  assumes "distinct polys"
    and "polys = [] \<or> (0 < k
           \<and> k \<le> length (generateCentersInPolygons L mapCenter k (map geom polys)))"
  shows "\<exists>balanced. assignCountriesWithinRegion L mapCenter geom polys k minTiles = Some balanced
           \<and> mset (concat balanced) = mset polys \<and> distinct (concat balanced)
           \<and> (\<forall>t\<in>set polys. \<exists>!i. i < length balanced \<and> t \<in> set (balanced ! i))"
proof -
  from growConnectedGroups_spec [OF assms(2), of minTiles] obtain groups pool assign idxAdj where
    g: "growConnectedGroups L mapCenter geom polys k minTiles = Some (groups, pool, assign, idxAdj)"
    "length groups = k" "mset (concat groups) + mset pool = mset polys" by blast
  from g(3) have "mset (concat groups @ pool) = mset polys" by simp
  then have d: "distinct (concat groups @ pool)"
    using assms(1) by (metis mset_eq_imp_distinct_iff)
  have "0 < length groups \<or> pool = []"
    using growConnectedGroups_shape [OF g(1)] by auto
  from rebalanceBoundaries_mset [OF this d, of L geom idxAdj minTiles k] obtain balanced where
    b: "rebalanceBoundaries L geom groups pool idxAdj minTiles k = Some balanced"
    "mset (concat balanced) = mset (concat groups) + mset pool" by blast
  from b(2) g(3) have m: "mset (concat balanced) = mset polys" by simp
  then have db: "distinct (concat balanced)"
    using assms(1) by (metis mset_eq_imp_distinct_iff)
  from m have "set (concat balanced) = set polys" by (rule mset_eq_setD)
  with db have "\<forall>t\<in>set polys. \<exists>!i. i < length balanced \<and> t \<in> set (balanced ! i)"
    using concat_unique_group [of balanced] by blast
  moreover have "assignCountriesWithinRegion L mapCenter geom polys k minTiles = Some balanced"
    using g(1) b(1) by (simp add: assignCountriesWithinRegion_def)
  ultimately show ?thesis using m db by blast
qed

theorem pipeline_partitions_tiles_witness:
  "distinct [0, 1, 2, 3::nat]
   \<and> ([0, 1, 2, 3::nat] = [] \<or> (0 < (2::nat)
        \<and> 2 \<le> length (generateCentersInPolygons flatLib (0, 0) 2 (map rowArena [0, 1, 2, 3]))))
   \<and> (\<exists>balanced. assignCountriesWithinRegion flatLib (0, 0) rowArena [0, 1, 2, 3] 2 1
          = Some balanced
        \<and> mset (concat balanced) = mset [0, 1, 2, 3]
        \<and> (\<forall>t\<in>set [0, 1, 2, 3]. \<exists>!i. i < length balanced \<and> t \<in> set (balanced ! i)))"
proof -
  have d: "distinct [0, 1, 2, 3::nat]" by simp
  have "generateCentersInPolygons flatLib (0, 0) 2 (map rowArena [0, 1, 2, 3])
      = jitterCenters flatLib (0, 0) 2"
    by (rule generateCenters_degenerate) (simp add: flatLib_def)
  then have c: "[0, 1, 2, 3::nat] = [] \<or> (0 < (2::nat)
        \<and> 2 \<le> length (generateCentersInPolygons flatLib (0, 0) 2 (map rowArena [0, 1, 2, 3])))"
    by simp
  from pipeline_partitions_tiles [OF d c, of 1] d c show ?thesis by blast
qed

text \<open>
  C2. Every call of the rebalancer that arises from the pipeline, that is on the groups, the
  pool and the adjacency that the grower returned for \<open>k\<close>, with \<open>targetCounts = k\<close>, returns,
  and returns exactly \<open>k\<close> groups, whatever their sizes.
\<close>

theorem rebalance_returns_target_count:
  assumes "growConnectedGroups L mapCenter geom polys k minTiles
             = Some (groups, pool, assign, idxAdj)"
  shows "\<exists>balanced. rebalanceBoundaries L geom groups pool idxAdj minTiles k = Some balanced
           \<and> length balanced = k"
proof -
  from growConnectedGroups_shape [OF assms] have "length groups = k" "0 < length groups \<or> pool = []"
    by auto
  with rebalanceBoundaries_total [of groups pool L geom idxAdj minTiles k] show ?thesis
    by auto
qed

theorem rebalance_returns_target_count_witness:
  "growConnectedGroups flatLib (0, 0) rowArena [0, 1, 2, 3] 2 1
     = Some ([[0, 1, 2, 3], []], [], [0, 0, 0, 0], [[1], [0, 2], [1, 3], [2]])
   \<and> (\<exists>balanced. rebalanceBoundaries flatLib rowArena [[0, 1, 2, 3], []] []
          [[1], [0, 2], [1, 3], [2]] 1 2 = Some balanced \<and> length balanced = 2)"
proof -
  have g: "growConnectedGroups flatLib (0, 0) rowArena [0, 1, 2, 3] 2 1
     = Some ([[0, 1, 2, 3], []], [], [0, 0, 0, 0], [[1], [0, 2], [1, 3], [2]])"
    by code_simp
  from rebalance_returns_target_count [OF g] g show ?thesis by simp
qed

text \<open>
  C3. One step of the boundary exchange for a deficient group \<open>gi\<close> either leaves the groups
  as they are or moves one tile \<open>t\<close> out of one donor \<open>gj\<close>; then the donor's size was strictly
  greater than \<open>minTiles\<close>, \<open>t\<close> shares an edge with a tile of \<open>gi\<close>, and the donor after the
  move, which is the donor without \<open>t\<close>, is not empty and splits into exactly one connected
  component: any two of its tiles are joined by a path in its adjacency graph. The exchange
  changes the groups by such steps only.
\<close>

theorem exchange_moves_safe_tile:
  assumes "exchangeFor geom k minTiles groups need gi = Some (groups', need')"
    and "k = length groups" "gi < k"
  shows "groups' = groups
       \<or> (\<exists>gj t. gj < k \<and> gj \<noteq> gi \<and> minTiles < int (length (groups ! gj))
              \<and> t \<in> set (groups ! gj)
              \<and> list_ex (\<lambda>r. shareEdge (geom t) (geom r)) (groups ! gi)
              \<and> groups' = moveTile groups gi gj t
              \<and> groups' ! gi = groups ! gi @ [t]
              \<and> groups' ! gj = filter (\<lambda>p. p \<noteq> t) (groups ! gj)
              \<and> groups' ! gj \<noteq> []
              \<and> (\<exists>c. splitConnectedComponents geom (Some (groups' ! gj)) = Some [c])
              \<and> (\<forall>u<length (groups' ! gj). \<forall>v<length (groups' ! gj).
                    (u, v) \<in> (adjRel (sccAdjacency (map geom (groups' ! gj))))\<^sup>*))"
proof (cases "groups' = groups")
  case True
  then show ?thesis by simp
next
  case False
  with exchangeFor_cases [OF assms(1)] obtain gj t where
    tr: "findTransfer geom groups gi (donorsOf k minTiles groups gi) = Some (Some (gj, t))"
    and g': "groups' = moveTile groups gi gj t" by blast
  from findTransfer_Some [OF tr] have
    d: "gj \<in> set (donorsOf k minTiles groups gi)"
    and f: "findDonorTile geom (groups ! gi) (groups ! gj) (groups ! gj) = Some (Some t)"
    by simp_all
  from d have gj: "gj < k" "gj \<noteq> gi" "minTiles < int (length (groups ! gj))"
    by (simp_all add: donorsOf_iff)
  from findDonorTile_Some [OF f] have
    t: "t \<in> set (groups ! gj)" "list_ex (\<lambda>r. shareEdge (geom t) (geom r)) (groups ! gi)"
    and s: "staysConnectedAfterRemoval geom (groups ! gj) t = Some True"
    by simp_all
  have n: "groups' ! gj = filter (\<lambda>p. p \<noteq> t) (groups ! gj)" "groups' ! gi = groups ! gi @ [t]"
    using moveTile_nth [of gi groups gj t] gj assms(2,3) g' by auto
  from staysConnected_True [OF s] n(1) have
    one: "groups' ! gj \<noteq> []" "\<exists>c. splitConnectedComponents geom (Some (groups' ! gj)) = Some [c]"
    by simp_all
  then have "\<forall>u<length (groups' ! gj). \<forall>v<length (groups' ! gj).
      (u, v) \<in> (adjRel (sccAdjacency (map geom (groups' ! gj))))\<^sup>*"
    using single_component_connected by blast
  with one gj t g' n show ?thesis by blast
qed

theorem exchange_moves_safe_tile_witness:
  "exchangeFor rowArena 2 2 [[0, 1, 2], [3::nat]] [1] 1 = Some ([[0, 1], [3, 2::nat]], [])
   \<and> (2::nat) = length [[0, 1, 2], [3::nat]] \<and> (1::nat) < 2
   \<and> (\<exists>gj t. gj < 2 \<and> gj \<noteq> 1 \<and> 2 < int (length ([[0, 1, 2], [3::nat]] ! gj))
          \<and> t \<in> set ([[0, 1, 2], [3::nat]] ! gj)
          \<and> [[0, 1], [3, 2::nat]] = moveTile [[0, 1, 2], [3::nat]] 1 gj t
          \<and> (\<exists>c. splitConnectedComponents rowArena (Some ([[0, 1], [3, 2::nat]] ! gj)) = Some [c]))"
proof -
  have e: "exchangeFor rowArena 2 2 [[0, 1, 2], [3::nat]] [1] 1 = Some ([[0, 1], [3, 2::nat]], [])"
    by code_simp
  have k: "(2::nat) = length [[0, 1, 2], [3::nat]]" and gi: "(1::nat) < 2"
    by simp_all
  have "[[0, 1], [3, 2::nat]] \<noteq> [[0, 1, 2], [3::nat]]" by simp
  with exchange_moves_safe_tile [OF e k gi] e k gi show ?thesis by blast
qed

text \<open>
  C4, as the specification states it, fails for the rebalancer: for six tiles in a row and
  \<open>k = 2\<close>, \<open>minTiles = 1\<close>, the grower returns one group of six tiles and one empty group,
  so only one group qualifies and the largest has more than \<open>2 * minTiles\<close> tiles; the
  rebalancer returns the two groups as they are and bisects nothing.
\<close>

theorem rebalance_no_count_repair_counterexample:
  "growConnectedGroups flatLib (0, 0) rowArena [0, 1, 2, 3, 4, 5] 2 1
     = Some ([[0, 1, 2, 3, 4, 5], []], [], [0, 0, 0, 0, 0, 0],
             [[1], [0, 2], [1, 3], [2, 4], [3, 5], [4]])
   \<and> rebalanceBoundaries flatLib rowArena [[0, 1, 2, 3, 4, 5], []] []
        [[1], [0, 2], [1, 3], [2, 4], [3, 5], [4]] 1 2 = Some [[0, 1, 2, 3, 4, 5], []]
   \<and> 2 * 1 < int (length [0, 1, 2, 3, 4, 5::nat])"
  by code_simp

text \<open>
  C4, amended. The count repair is the last loop of \<open>forceAssignWithConnectivity\<close>, and the
  rebalancer has none. The loop stops and returns the groups as they are as soon as the
  count \<open>numGroups\<close> is met or the first longest group has at most \<open>2 * minTiles\<close> tiles.
  Otherwise that group is bisected by index: it keeps the second half of its tile list and
  the first half, rounded down, becomes a new last group, and the loop goes on. The loop
  ends with the count met or with no group above \<open>2 * minTiles\<close>, never with more than
  \<open>numGroups\<close> groups when it started below, with the same tiles, each group a run of
  consecutive tiles of one of the groups it started from; every new group has at least
  \<open>minTiles\<close> tiles, and no group that had \<open>minTiles\<close> tiles ends with fewer.
\<close>

theorem count_repair_bisects_largest:
  assumes "largestIdx validGroups = Some li"
  shows "li < length validGroups
       \<and> (\<forall>j<length validGroups. length (validGroups ! j) \<le> length (validGroups ! li))
       \<and> (\<forall>j<li. length (validGroups ! j) < length (validGroups ! li))
       \<and> (numGroups \<le> length validGroups \<or> int (length (validGroups ! li)) \<le> 2 * minTiles
            \<longrightarrow> repairCount minTiles numGroups validGroups = Some validGroups)
       \<and> (length validGroups < numGroups \<and> 2 * minTiles < int (length (validGroups ! li))
            \<longrightarrow> repairCount minTiles numGroups validGroups
                = repairCount minTiles numGroups
                    (validGroups[li := drop (length (validGroups ! li) div 2) (validGroups ! li)]
                       @ [take (length (validGroups ! li) div 2) (validGroups ! li)]))
       \<and> (\<exists>r. repairCount minTiles numGroups validGroups = Some r
              \<and> (numGroups \<le> length r \<or> (\<forall>g\<in>set r. int (length g) \<le> 2 * minTiles))
              \<and> length validGroups \<le> length r
              \<and> length r \<le> max numGroups (length validGroups)
              \<and> (\<forall>j<length validGroups.
                    min (int (length (validGroups ! j))) minTiles \<le> int (length (r ! j)))
              \<and> (\<forall>j<length r. length validGroups \<le> j \<longrightarrow> minTiles \<le> int (length (r ! j)))
              \<and> mset (concat r) = mset (concat validGroups)
              \<and> (\<forall>g\<in>set r. \<exists>g0\<in>set validGroups. sliceOf g g0))"
proof -
  from assms have ne: "validGroups \<noteq> []"
    by (auto simp: largestIdx_def split: if_splits)
  from largestIdx_Some [OF ne] assms have
    "li < length validGroups"
    "\<forall>j<length validGroups. length (validGroups ! j) \<le> length (validGroups ! li)"
    "\<forall>j<li. length (validGroups ! j) < length (validGroups ! li)" by auto
  moreover have "numGroups \<le> length validGroups \<or> int (length (validGroups ! li)) \<le> 2 * minTiles
      \<longrightarrow> repairCount minTiles numGroups validGroups = Some validGroups"
    using assms by (subst repairCount.simps) (simp add: mult.commute)
  moreover have "length validGroups < numGroups \<and> 2 * minTiles < int (length (validGroups ! li))
      \<longrightarrow> repairCount minTiles numGroups validGroups
          = repairCount minTiles numGroups
              (validGroups[li := drop (length (validGroups ! li) div 2) (validGroups ! li)]
                 @ [take (length (validGroups ! li) div 2) (validGroups ! li)])"
    using assms by (subst repairCount.simps) simp
  moreover from repairCount_spec [OF ne, of minTiles numGroups] obtain r where
    r: "repairCount minTiles numGroups validGroups = Some r"
      "numGroups \<le> length r \<or> (\<forall>g\<in>set r. int (length g) \<le> 2 * minTiles)"
      "length r \<le> max numGroups (length validGroups)"
      "mset (concat r) = mset (concat validGroups)"
      "\<forall>g\<in>set r. \<exists>g0\<in>set validGroups. sliceOf g g0"
    by blast
  from repairCount_sizes [OF r(1)] r
  have "\<exists>r. repairCount minTiles numGroups validGroups = Some r
              \<and> (numGroups \<le> length r \<or> (\<forall>g\<in>set r. int (length g) \<le> 2 * minTiles))
              \<and> length validGroups \<le> length r
              \<and> length r \<le> max numGroups (length validGroups)
              \<and> (\<forall>j<length validGroups.
                    min (int (length (validGroups ! j))) minTiles \<le> int (length (r ! j)))
              \<and> (\<forall>j<length r. length validGroups \<le> j \<longrightarrow> minTiles \<le> int (length (r ! j)))
              \<and> mset (concat r) = mset (concat validGroups)
              \<and> (\<forall>g\<in>set r. \<exists>g0\<in>set validGroups. sliceOf g g0)"
    by blast
  ultimately show ?thesis by blast
qed

theorem count_repair_bisects_largest_witness:
  "largestIdx [[0, 1, 2, 3, 4, 5::nat]] = Some 0
   \<and> length [[0, 1, 2, 3, 4, 5::nat]] < 2
   \<and> 2 * 1 < int (length ([[0, 1, 2, 3, 4, 5::nat]] ! 0))
   \<and> repairCount 1 2 [[0, 1, 2, 3, 4, 5::nat]] = repairCount 1 2 [[3, 4, 5], [0, 1, 2]]
   \<and> repairCount 1 2 [[3, 4, 5], [0, 1, 2::nat]] = Some [[3, 4, 5], [0, 1, 2]]
   \<and> largestIdx [[0, 1, 2::nat]] = Some 0
   \<and> length [[0, 1, 2::nat]] < 3
   \<and> int (length ([[0, 1, 2::nat]] ! 0)) \<le> 2 * 2
   \<and> repairCount 2 3 [[0, 1, 2::nat]] = Some [[0, 1, 2]]"
proof -
  have b: "largestIdx [[0, 1, 2, 3, 4, 5::nat]] = Some 0" by (simp add: largestIdx_def)
  have a: "length [[0, 1, 2, 3, 4, 5::nat]] < 2" by simp
  have c: "2 * 1 < int (length ([[0, 1, 2, 3, 4, 5::nat]] ! 0))" by simp
  have d: "repairCount 1 2 [[3, 4, 5], [0, 1, 2::nat]] = Some [[3, 4, 5], [0, 1, 2]]"
    by code_simp
  have e: "largestIdx [[0, 1, 2::nat]] = Some 0" by (simp add: largestIdx_def)
  have f: "length [[0, 1, 2::nat]] < 3" by simp
  have g: "int (length ([[0, 1, 2::nat]] ! 0)) \<le> 2 * 2" by simp
  from count_repair_bisects_largest [OF b, of 2 1] a c
  have s1: "repairCount 1 2 [[0, 1, 2, 3, 4, 5::nat]] = repairCount 1 2 [[3, 4, 5], [0, 1, 2]]"
    by simp
  from count_repair_bisects_largest [OF e, of 3 2] g
  have s2: "repairCount 2 3 [[0, 1, 2::nat]] = Some [[0, 1, 2]]"
    by blast
  from a b c d e f g s1 s2 show ?thesis by blast
qed

text \<open>
  C5, as the specification states it, fails: with \<open>bumps = 3\<close>, \<open>startAngle = 0\<close>, \<open>scale = 1\<close>,
  \<open>pixelScale = 100\<close>, the origin \<open>(0, 0)\<close> and the centroid \<open>(70, 0)\<close>, the angle is \<open>0\<close>, so
  \<open>length = 70\<close>, \<open>r2 = 70\<close> and \<open>r1 = 50 + 40 sin 1 > 70\<close>: the return expression is true by
  its first disjunct, the single test \<open>length < r2\<close> is false, and \<open>length \<noteq> r1\<close>.
\<close>

theorem isLand_single_test_counterexample:
  "islandLength (70, 0) (0, 0) \<noteq> islandR1 100 (islandAngle (70, 0) (0, 0)) 0 3 1
   \<and> isLandAt 100 (70, 0) (0, 0) 0 3 1
   \<and> \<not> isLandSingleTest 100 (70, 0) (0, 0) 0 3 1"
  using sin_one_gt_half
  by (simp add: isLandAt_def isLandSingleTest_def Let_def islandAngle_east islandLength_east
      islandR1_east islandR2_east)

text \<open>
  C5, amended. With \<open>ISLAND_FACTOR = 1\<close>, for every input with \<open>length \<noteq> r1\<close> the return
  expression of the land test is the test \<open>length < max r1 r2\<close>; it agrees with the single
  test \<open>length < r2\<close> whenever moreover \<open>r1 \<le> r2\<close>.
\<close>

theorem isLand_two_term_form:
  assumes "islandLength c centerPoint
             \<noteq> islandR1 pixelScale (islandAngle c centerPoint) startAngle bumps scale"
  shows "(isLandAt pixelScale c centerPoint startAngle bumps scale
            \<longleftrightarrow> islandLength c centerPoint
                  < max (islandR1 pixelScale (islandAngle c centerPoint) startAngle bumps scale)
                        (islandR2 pixelScale (islandAngle c centerPoint) startAngle bumps scale))
         \<and> (islandR1 pixelScale (islandAngle c centerPoint) startAngle bumps scale
               \<le> islandR2 pixelScale (islandAngle c centerPoint) startAngle bumps scale
             \<longrightarrow> isLandAt pixelScale c centerPoint startAngle bumps scale
                   = isLandSingleTest pixelScale c centerPoint startAngle bumps scale)"
  using assms by (auto simp: isLandAt_def isLandSingleTest_def Let_def ISLAND_FACTOR_def)

theorem isLand_two_term_form_witness:
  "islandLength (70, 0) (0, 0) \<noteq> islandR1 100 (islandAngle (70, 0) (0, 0)) (- 1) 0 1
   \<and> islandR1 100 (islandAngle (70, 0) (0, 0)) (- 1) 0 1
        \<le> islandR2 100 (islandAngle (70, 0) (0, 0)) (- 1) 0 1
   \<and> isLandAt 100 (70, 0) (0, 0) (- 1) 0 1 = isLandSingleTest 100 (70, 0) (0, 0) (- 1) 0 1"
proof -
  have r1: "islandR1 100 0 (- 1) 0 1 = 50"
    by (simp add: islandR1_def)
  have r2: "islandR2 100 0 (- 1) 0 1 = 70 + 20 * sin 1"
    by (simp add: islandR2_def algebra_simps)
  have h1: "islandLength (70, 0) (0, 0) \<noteq> islandR1 100 (islandAngle (70, 0) (0, 0)) (- 1) 0 1"
    by (simp add: islandAngle_east islandLength_east r1)
  have h2: "islandR1 100 (islandAngle (70, 0) (0, 0)) (- 1) 0 1
      \<le> islandR2 100 (islandAngle (70, 0) (0, 0)) (- 1) 0 1"
    using sin_one_gt_half by (simp add: islandAngle_east r1 r2)
  have "isLandAt 100 (70, 0) (0, 0) (- 1) 0 1 = isLandSingleTest 100 (70, 0) (0, 0) (- 1) 0 1"
    using isLand_two_term_form [OF h1] h2 by blast
  with h1 h2 show ?thesis by (intro conjI)
qed

text \<open>
  C6. For the land test called with \<open>bumps = 3\<close>, \<open>startAngle = 0\<close>, \<open>scale = 1\<close> and a positive
  \<open>pixelScale\<close>: a tile whose centroid is the origin point is land, and a tile whose centroid
  is at distance at least \<open>2 * pixelScale\<close> from the origin point is water.
\<close>

theorem isLand_origin_and_far:
  assumes "0 < pixelScale"
    and "polygonCentroid L nearTile = Some centerPoint"
    and "polygonCentroid L farTile = Some c"
    and "2 * pixelScale \<le> sqrt ((fst c - fst centerPoint)\<^sup>2 + (snd c - snd centerPoint)\<^sup>2)"
  shows "IsTargetPokygon L pixelScale nearTile centerPoint 0 3 1
       \<and> \<not> IsTargetPokygon L pixelScale farTile centerPoint 0 3 1"
proof
  have "islandLength centerPoint centerPoint = 0" by (simp add: islandLength_origin)
  moreover have "0 < islandR1 pixelScale (islandAngle centerPoint centerPoint) 0 3 1"
    using islandR1_bounds(1) [OF assms(1), of "islandAngle centerPoint centerPoint" 0 3] assms(1)
    by simp
  ultimately show "IsTargetPokygon L pixelScale nearTile centerPoint 0 3 1"
    using assms(2) by (simp add: IsTargetPokygon_def isLandAt_def Let_def)
next
  have "pixelScale \<le> islandLength c centerPoint"
    using assms(4) islandLength_ge_half_dist [of c centerPoint] by simp
  then have "0.9 * pixelScale \<le> islandLength c centerPoint"
    using assms(1) by simp
  with islandR1_bounds(2) [OF assms(1), of "islandAngle c centerPoint" 0 3]
    islandR2_upper [OF assms(1), of "islandAngle c centerPoint" 0 3]
  show "\<not> IsTargetPokygon L pixelScale farTile centerPoint 0 3 1"
    using assms(3) by (simp add: IsTargetPokygon_def isLandAt_def Let_def ISLAND_FACTOR_def)
qed

theorem isLand_origin_and_far_witness:
  "(0::real) < 100
   \<and> polygonCentroid flatLib (square (- 1) (- 1) 2) = Some (0, 0)
   \<and> polygonCentroid flatLib (square 299 (- 1) 2) = Some (300, 0)
   \<and> 2 * 100 \<le> sqrt ((fst (300, 0) - fst (0, 0))\<^sup>2 + (snd (300::real, 0::real) - snd (0::real, 0::real))\<^sup>2)
   \<and> IsTargetPokygon flatLib 100 (square (- 1) (- 1) 2) (0, 0) 0 3 1
   \<and> \<not> IsTargetPokygon flatLib 100 (square 299 (- 1) 2) (0, 0) 0 3 1"
proof -
  have c1: "polygonCentroid flatLib (square (- 1) (- 1) 2) = Some (0, 0)"
    by (simp add: flatLib_def d3Centroid_def square_def Let_def upt_rec)
  have c2: "polygonCentroid flatLib (square 299 (- 1) 2) = Some (300, 0)"
    by (simp add: flatLib_def d3Centroid_def square_def Let_def upt_rec)
  have far: "2 * 100 \<le> sqrt ((fst (300, 0) - fst (0, 0))\<^sup>2 + (snd (300::real, 0::real) - snd (0::real, 0::real))\<^sup>2)"
    by simp
  have pos: "(0::real) < 100" by simp
  from isLand_origin_and_far [OF pos c1 c2 far] c1 c2 far show ?thesis by simp
qed




text \<open>
  C8, as the specification states it, fails: for the hull \<open>(0, 0), (10, 0), (0, 10)\<close>, a Poisson
  sample outside the hull and 5000 rejection draws outside the hull, one center is asked for
  and none is returned. The hull is not degenerate, and no jittered center is produced.
\<close>

theorem generateCenters_short_counterexample:
  "polygonHull missLib (concat [[(0, 0), (10, 0), (0, 10)]]) = Some [(0, 0), (10, 0), (0, 10)]
   \<and> generateCentersInPolygons missLib (5, 5) 1 [[(0, 0), (10, 0), (0, 10)]] = []"
proof -
  have h: "polygonHull missLib (concat [[(0, 0), (10, 0), (0, 10)]]) = Some [(0, 0), (10, 0), (0, 10)]"
    by (simp add: missLib_def)
  have "acceptedCenters missLib [(0, 0), (10, 0), (0, 10)] = []"
    by (auto simp: acceptedCenters_def Let_def missLib_def rejectionDraw_def filter_empty_conv)
  with generateCenters_form [OF h, of "(5, 5)" 1] h show ?thesis by simp
qed

text \<open>
  C8, amended. If the hull is not degenerate, the seeder returns the Poisson points accepted
  by the hull, topped up with the accepted ones among at most 5000 rejection draws, cut at
  \<open>k\<close>: at most \<open>k\<close> centers, all inside the hull, and fewer than \<open>k\<close> when fewer were accepted;
  there is no jitter on this path. Jittered placement is used when the hull is missing and
  when it has fewer than three vertices, and only then; in both cases exactly the \<open>k\<close>
  jittered centers are returned.
\<close>

theorem generateCenters_outcome:
  assumes "polygonHull L (concat polygons) = Some hullPts" "3 \<le> length hullPts"
    and "polygonHull L (concat flat) = None"
    and "polygonHull L (concat thin) = Some thinHull" "length thinHull < 3"
  shows "generateCentersInPolygons L mapCenter k polygons = take k (acceptedCenters L hullPts)
       \<and> length (generateCentersInPolygons L mapCenter k polygons)
           = min k (length (acceptedCenters L hullPts))
       \<and> (\<forall>c\<in>set (generateCentersInPolygons L mapCenter k polygons). polygonContains L hullPts c)
       \<and> generateCentersInPolygons L mapCenter k flat = jitterCenters L mapCenter k
       \<and> length (generateCentersInPolygons L mapCenter k flat) = k
       \<and> generateCentersInPolygons L mapCenter k thin = jitterCenters L mapCenter k
       \<and> length (generateCentersInPolygons L mapCenter k thin) = k"
proof -
  have f: "generateCentersInPolygons L mapCenter k polygons = take k (acceptedCenters L hullPts)"
    using assms(1,2) by (rule generateCenters_form)
  have "\<forall>c\<in>set (take k (acceptedCenters L hullPts)). polygonContains L hullPts c"
    by (meson in_set_takeD set_acceptedCenters)
  moreover have "generateCentersInPolygons L mapCenter k flat = jitterCenters L mapCenter k"
    using assms(3) by (simp add: generateCenters_degenerate)
  moreover have "generateCentersInPolygons L mapCenter k thin = jitterCenters L mapCenter k"
    using assms(4,5) by (simp add: generateCenters_degenerate)
  ultimately show ?thesis using f by (simp add: min.commute)
qed

theorem generateCenters_outcome_witness:
  "polygonHull hitLib (concat [[(0, 0), (10, 0), (0, 10)]]) = Some [(0, 0), (10, 0), (0, 10)]
   \<and> (3::nat) \<le> length [(0::real, 0::real), (10, 0), (0, 10)]
   \<and> polygonHull hitLib (concat []) = None
   \<and> polygonHull hitLib (concat [[(0, 0), (5, 0), (10, 0)]]) = Some [(0, 0), (10, 0)]
   \<and> length [(0::real, 0::real), (10, 0)] < 3
   \<and> generateCentersInPolygons hitLib (5, 5) 1 [[(0, 0), (10, 0), (0, 10)]] = [(1, 1)]
   \<and> polygonContains hitLib [(0, 0), (10, 0), (0, 10)] (1, 1)
   \<and> length (generateCentersInPolygons hitLib (5, 5) 1 []) = 1
   \<and> generateCentersInPolygons hitLib (5, 5) 2 [[(0, 0), (5, 0), (10, 0)]] = [(85, 85), (85, 85)]"
proof -
  have h: "polygonHull hitLib (concat [[(0, 0), (10, 0), (0, 10)]]) = Some [(0, 0), (10, 0), (0, 10)]"
    by (simp add: hitLib_def missLib_def)
  have n: "(3::nat) \<le> length [(0::real, 0::real), (10, 0), (0, 10)]"
    by simp
  have d: "polygonHull hitLib (concat []) = None"
    by (simp add: hitLib_def missLib_def)
  have t: "polygonHull hitLib (concat [[(0, 0), (5, 0), (10, 0)]]) = Some [(0, 0), (10, 0)]"
    by (simp add: hitLib_def missLib_def)
  have s: "length [(0::real, 0::real), (10, 0)] < 3"
    by simp
  have "filter (polygonContains hitLib [(0, 0), (10, 0), (0, 10)])
      (map (rejectionDraw hitLib (0, 10) (0, 10)) [0..<5000]) = []"
    by (auto simp: hitLib_def missLib_def rejectionDraw_def filter_empty_conv)
  then have a: "acceptedCenters hitLib [(0, 0), (10, 0), (0, 10)] = [(1, 1)]"
    by (simp add: acceptedCenters_def Let_def) (simp add: hitLib_def missLib_def)
  have j: "jitterCenters hitLib (5, 5) 2 = [(85, 85), (85, 85)]"
    by (simp add: jitterCenters_def hitLib_def missLib_def upt_rec)
  have p: "polygonContains hitLib [(0, 0), (10, 0), (0, 10)] (1, 1)"
    by (simp add: hitLib_def missLib_def)
  from generateCenters_outcome [OF h n d t s, of "(5, 5)" 1] a
  have r1: "generateCentersInPolygons hitLib (5, 5) 1 [[(0, 0), (10, 0), (0, 10)]] = [(1, 1)]"
    and r2: "length (generateCentersInPolygons hitLib (5, 5) 1 []) = 1"
    by simp_all
  from generateCenters_outcome [OF h n d t s, of "(5, 5)" 2] j
  have r3: "generateCentersInPolygons hitLib (5, 5) 2 [[(0, 0), (5, 0), (10, 0)]]
      = [(85, 85), (85, 85)]"
    by simp
  from h n d t s r1 p r2 r3 show ?thesis by blast
qed

text \<open>
  C9. For a group of exactly one tile whose directed edges are pairwise different and none of
  which is the reverse of another one, the border extraction strokes exactly the tile's edge
  list, in order: one directed segment per polygon edge, so never zero edges for a polygon
  that has vertices.
\<close>

theorem drawBorders_single_tile:
  assumes "distinct (edgesOf (geom t))"
    and "\<forall>e\<in>set (edgesOf (geom t)). \<forall>f\<in>set (edgesOf (geom t)). e \<noteq> f \<longrightarrow> f \<noteq> (snd e, fst e)"
  shows "drawBorders geom [t] = edgesOf (geom t)
       \<and> length (drawBorders geom [t]) = length (geom t)"
proof -
  have "foldl cancelEdge [] (edgesOf (geom t)) = [] @ map (\<lambda>e. (e, e)) (edgesOf (geom t))"
    using assms by (intro cancelEdge_fresh) (simp_all add: omHas_def)
  then have "drawBorders geom [t] = edgesOf (geom t)"
    by (simp add: drawBorders_def comp_def)
  then show ?thesis by simp
qed

theorem drawBorders_single_tile_witness:
  "distinct (edgesOf (triangleArena 0))
   \<and> edgesOf (triangleArena 0) = [((0, 0), (4, 0)), ((4, 0), (0, 3)), ((0, 3), (0, 0))]
   \<and> drawBorders triangleArena [0] = [((0, 0), (4, 0)), ((4, 0), (0, 3)), ((0, 3), (0, 0))]
   \<and> length (drawBorders triangleArena [0]) = 3"
proof -
  have es: "edgesOf (triangleArena 0) = [((0, 0), (4, 0)), ((4, 0), (0, 3)), ((0, 3), (0, 0))]"
    by (simp add: edgesOf_def triangleArena_def upt_rec)
  have h1: "distinct (edgesOf (triangleArena 0))"
    by (simp add: es)
  have h2: "\<forall>e\<in>set (edgesOf (triangleArena 0)). \<forall>f\<in>set (edgesOf (triangleArena 0)).
         e \<noteq> f \<longrightarrow> f \<noteq> (snd e, fst e)"
    by (simp add: es)
  from drawBorders_single_tile [of triangleArena 0, OF h1 h2] h1 es show ?thesis by simp
qed

text \<open>
  C10. \<open>splitConnectedComponents\<close> called on a \<open>null\<close> or an empty tile list returns the empty
  list of components and throws nothing; on every tile list it returns, without throwing,
  components whose concatenation holds each input tile exactly once.
\<close>

theorem splitConnectedComponents_partition:
  "splitConnectedComponents geom None = Some []
   \<and> splitConnectedComponents geom (Some []) = Some []
   \<and> (\<exists>cs. splitConnectedComponents geom (Some polys) = Some cs
          \<and> mset (concat cs) = mset polys)"
  using splitConnectedComponents_mset [of geom polys]
  by (simp add: splitConnectedComponents_def)

end
